theory Spec2Isabelle
  imports Main "HOL-Library.Word"
begin

section \<open>Data model of the log/slog types the handlers work on\<close>

text \<open>
  \<^verbatim>\<open>slog.Level\<close> is an integer; the four named levels are the constants of log/slog.
\<close>

type_synonym Level = int

definition LevelDebug :: Level where "LevelDebug = - 4"
definition LevelInfo :: Level where "LevelInfo = 0"
definition LevelWarn :: Level where "LevelWarn = 4"
definition LevelError :: Level where "LevelError = 8"

text \<open>
  A \<^verbatim>\<open>time.Time\<close> is kept as its distance in nanoseconds from the zero instant, so that
  \<^verbatim>\<open>IsZero\<close> is a comparison with 0. The payload of a value of kind Any is opaque
  (\<open>Nil\<close> is the nil interface, which is what the zero \<^verbatim>\<open>slog.Value\<close> holds).
\<close>

type_synonym Time = int

definition IsZero :: "Time \<Rightarrow> bool" where
  "IsZero t = (t = 0)"

datatype any = Nil | Opaque nat

datatype Value =
    AnyValue any
  | BoolValue bool
  | DurationValue int
  | Float64Value "64 word"
  | Int64Value int
  | StringValue string
  | TimeValue Time
  | Uint64Value nat
  | GroupValue "Attr list"
and Attr = Attr (Key: string) (Value: Value)

text \<open>\<^verbatim>\<open>slog.Attr{}\<close>: the empty key with the zero Value.\<close>

definition emptyAttr :: Attr where
  "emptyAttr = Attr [] (AnyValue Nil)"

text \<open>\<^verbatim>\<open>a.Equal(slog.Attr{})\<close>: same key and equal values.\<close>

definition isEmptyAttr :: "Attr \<Rightarrow> bool" where
  "isEmptyAttr a = (a = emptyAttr)"

datatype Kind =
  KindAny | KindBool | KindDuration | KindFloat64 | KindInt64 | KindString | KindTime
  | KindUint64 | KindGroup

text \<open>\<^verbatim>\<open>Value.Kind()\<close>.\<close>

fun Value_Kind :: "Value \<Rightarrow> Kind" where
  "Value_Kind (AnyValue x) = KindAny"
| "Value_Kind (BoolValue b) = KindBool"
| "Value_Kind (DurationValue d) = KindDuration"
| "Value_Kind (Float64Value f) = KindFloat64"
| "Value_Kind (Int64Value i) = KindInt64"
| "Value_Kind (StringValue s) = KindString"
| "Value_Kind (TimeValue t) = KindTime"
| "Value_Kind (Uint64Value u) = KindUint64"
| "Value_Kind (GroupValue gs) = KindGroup"

text \<open>\<^verbatim>\<open>Value.Group()\<close>, which the handlers call on values of kind Group only.\<close>

fun Group :: "Value \<Rightarrow> Attr list" where
  "Group (GroupValue gs) = gs"
| "Group _ = []"

fun isEmptyGroup :: "Value \<Rightarrow> bool" where
  "isEmptyGroup (GroupValue gs) = (gs = [])"
| "isEmptyGroup _ = False"

record Record =
  Time :: Time
  Level :: Level
  Message :: string
  PC :: "64 word"
  rattrs :: "Attr list"

record Frame =
  File :: string
  Line :: int

record HandlerOptions =
  AddSource :: bool
  Leveler :: "Level option"
  ReplaceAttr :: "(string list \<Rightarrow> Attr \<Rightarrow> Attr) option"

section \<open>ANSI colour codes\<close>

definition ESC :: char where "ESC = CHR 0x1B"

definition colorReset :: string where "colorReset = ESC # ''[0m''"
definition colorRed :: string where "colorRed = ESC # ''[31m''"
definition colorGreen :: string where "colorGreen = ESC # ''[32m''"
definition colorYellow :: string where "colorYellow = ESC # ''[33m''"
definition colorBlue :: string where "colorBlue = ESC # ''[34m''"
definition colorPurple :: string where "colorPurple = ESC # ''[35m''"
definition colorCyan :: string where "colorCyan = ESC # ''[36m''"
definition colorGray :: string where "colorGray = ESC # ''[37m''"
definition colorBold :: string where "colorBold = ESC # ''[1m''"

section \<open>What the Go runtime and standard library provide\<close>

text \<open>
  The handlers call library code that is not part of the repository. What they use of it
  is collected in one record, and every theorem below holds for every such record:
  \<^item> \<open>Time_Format t layout\<close> is \<^verbatim>\<open>t.Format(layout)\<close>;
  \<^item> \<open>Duration_String d\<close> is \<^verbatim>\<open>time.Duration(d).String()\<close>;
  \<^item> \<open>Sprintf_v v\<close> is \<^verbatim>\<open>fmt.Sprintf("%v", v.Any())\<close>;
  \<^item> \<open>Value_String_other v\<close> is \<^verbatim>\<open>v.String()\<close> for a value that is not of kind String;
  \<^item> \<open>IsPrint_table r\<close> is \<^verbatim>\<open>strconv.IsPrint(r)\<close> for a rune above Latin-1 (the Unicode tables);
  \<^item> \<open>CallersFrames_Next pc\<close> is the frame \<^verbatim>\<open>runtime.CallersFrames([]uintptr{pc}).Next()\<close> returns;
  \<^item> \<open>Write w history p\<close> is the error that the \<^verbatim>\<open>io.Writer\<close> behind reference \<open>w\<close>
    returns from \<^verbatim>\<open>Write(p)\<close> after the earlier calls \<open>history\<close> (\<open>None\<close> is nil);
  \<^item> \<open>Now\<close> is \<^verbatim>\<open>time.Now()\<close> and \<open>Callers skip\<close> the program counter that
    \<^verbatim>\<open>runtime.Callers(skip, pcs[:])\<close> stores in \<^verbatim>\<open>pcs[0]\<close> (0 when there is no such frame).
\<close>

datatype error = WriteError string

type_synonym ref = nat

type_synonym trace = "(ref \<times> string) list"

record env =
  Time_Format :: "Time \<Rightarrow> string \<Rightarrow> string"
  Duration_String :: "int \<Rightarrow> string"
  Sprintf_v :: "Value \<Rightarrow> string"
  Value_String_other :: "Value \<Rightarrow> string"
  IsPrint_table :: "nat \<Rightarrow> bool"
  CallersFrames_Next :: "64 word \<Rightarrow> Frame"
  Write :: "ref \<Rightarrow> trace \<Rightarrow> string \<Rightarrow> error option"
  Now :: Time
  Callers :: "nat \<Rightarrow> 64 word"

text \<open>\<^verbatim>\<open>Value.String()\<close>: the string itself for kind String, the library's text otherwise.\<close>

definition Value_String :: "env \<Rightarrow> Value \<Rightarrow> string" where
  "Value_String E v = (case v of StringValue s \<Rightarrow> s | _ \<Rightarrow> Value_String_other E v)"

section \<open>UTF-8 and \<^verbatim>\<open>%q\<close> (strconv.Quote)\<close>

text \<open>
  A Go string is a sequence of bytes; \<open>string\<close> is a list of 8-bit characters. Runes are
  natural numbers. Masks are written as \<open>mod\<close>, shifts as multiplications and the
  bitwise or of disjoint bit fields as \<open>+\<close>.
\<close>

definition byte :: "char \<Rightarrow> nat" where
  "byte c = of_char c"

definition RuneError :: nat where "RuneError = 0xFFFD"
definition RuneSelf :: nat where "RuneSelf = 0x80"
definition MaxRune :: nat where "MaxRune = 0x10FFFF"

definition first :: "nat \<Rightarrow> nat" where
  "first b =
     (if b < 0x80 then 0xF0
      else if b < 0xC2 then 0xF1
      else if b < 0xE0 then 0x02
      else if b = 0xE0 then 0x13
      else if b < 0xED then 0x03
      else if b = 0xED then 0x23
      else if b < 0xF0 then 0x03
      else if b = 0xF0 then 0x34
      else if b < 0xF4 then 0x04
      else if b = 0xF4 then 0x44
      else 0xF1)"

definition acceptRanges :: "nat \<Rightarrow> nat \<times> nat" where
  "acceptRanges i =
     (if i = 1 then (0xA0, 0xBF)
      else if i = 2 then (0x80, 0x9F)
      else if i = 3 then (0x90, 0xBF)
      else if i = 4 then (0x80, 0x8F)
      else (0x80, 0xBF))"

text \<open>\<^verbatim>\<open>utf8.DecodeRuneInString\<close>: the rune at the front of \<open>s\<close> and its width in bytes.\<close>

definition DecodeRuneInString :: "string \<Rightarrow> nat \<times> nat" where
  "DecodeRuneInString s =
     (let n = length s in
      if n < 1 then (RuneError, 0)
      else
        let s0 = byte (s ! 0); x = first s0 in
        if x \<ge> 0xF0 then ((if x = 0xF1 then RuneError else s0), 1)
        else
          let sz = x mod 8; lo = fst (acceptRanges (x div 16)); hi = snd (acceptRanges (x div 16)) in
          if n < sz then (RuneError, 1)
          else
            let s1 = byte (s ! 1) in
            if s1 < lo \<or> hi < s1 then (RuneError, 1)
            else if sz \<le> 2 then ((s0 mod 32) * 64 + s1 mod 64, 2)
            else
              let s2 = byte (s ! 2) in
              if s2 < 0x80 \<or> 0xBF < s2 then (RuneError, 1)
              else if sz \<le> 3 then ((s0 mod 16) * 4096 + (s1 mod 64) * 64 + s2 mod 64, 3)
              else
                let s3 = byte (s ! 3) in
                if s3 < 0x80 \<or> 0xBF < s3 then (RuneError, 1)
                else ((s0 mod 8) * 262144 + (s1 mod 64) * 4096 + (s2 mod 64) * 64 + s3 mod 64, 4))"

text \<open>\<^verbatim>\<open>utf8.AppendRune\<close>.\<close>

definition AppendRune :: "string \<Rightarrow> nat \<Rightarrow> string" where
  "AppendRune p r =
     (if r \<le> 0x7F then p @ [char_of r]
      else if r \<le> 0x7FF then p @ [char_of (0xC0 + r div 64), char_of (0x80 + r mod 64)]
      else if r > MaxRune \<or> (0xD800 \<le> r \<and> r \<le> 0xDFFF) then
        p @ [char_of (0xE0 + RuneError div 4096), char_of (0x80 + (RuneError div 64) mod 64),
             char_of (0x80 + RuneError mod 64)]
      else if r \<le> 0xFFFF then
        p @ [char_of (0xE0 + r div 4096), char_of (0x80 + (r div 64) mod 64),
             char_of (0x80 + r mod 64)]
      else
        p @ [char_of (0xF0 + r div 262144), char_of (0x80 + (r div 4096) mod 64),
             char_of (0x80 + (r div 64) mod 64), char_of (0x80 + r mod 64)])"

definition ValidRune :: "nat \<Rightarrow> bool" where
  "ValidRune r = (r < 0xD800 \<or> (0xDFFF < r \<and> r \<le> MaxRune))"

text \<open>\<^verbatim>\<open>strconv.IsPrint\<close>: decided here up to Latin-1, by the Unicode tables above it.\<close>

definition IsPrint :: "env \<Rightarrow> nat \<Rightarrow> bool" where
  "IsPrint E r =
     (if r \<le> 0xFF then
        (if 0x20 \<le> r \<and> r \<le> 0x7E then True
         else if 0xA1 \<le> r \<and> r \<le> 0xFF then r \<noteq> 0xAD
         else False)
      else IsPrint_table E r)"

definition lowerhex :: "nat \<Rightarrow> char" where
  "lowerhex n = ''0123456789abcdef'' ! (n mod 16)"

definition bslash :: char where "bslash = CHR 0x5C"
definition dquote :: char where "dquote = CHR 0x22"
definition newline :: char where "newline = CHR 0x0A"

text \<open>\<^verbatim>\<open>strconv.appendEscapedRune\<close> with the double quote as quote, neither ASCII-only nor graphic-only.\<close>

definition appendEscapedRune :: "env \<Rightarrow> string \<Rightarrow> nat \<Rightarrow> string" where
  "appendEscapedRune E buf r =
     (if r = byte dquote \<or> r = byte bslash then buf @ [bslash, char_of r]
      else if IsPrint E r then AppendRune buf r
      else if r = 0x07 then buf @ [bslash, CHR ''a'']
      else if r = 0x08 then buf @ [bslash, CHR ''b'']
      else if r = 0x0C then buf @ [bslash, CHR ''f'']
      else if r = 0x0A then buf @ [bslash, CHR ''n'']
      else if r = 0x0D then buf @ [bslash, CHR ''r'']
      else if r = 0x09 then buf @ [bslash, CHR ''t'']
      else if r = 0x0B then buf @ [bslash, CHR ''v'']
      else if r < 0x20 \<or> r = 0x7F then
        buf @ [bslash, CHR ''x'', lowerhex (r div 16), lowerhex (r mod 16)]
      else
        let r = (if \<not> ValidRune r then 0xFFFD else r) in
        if r < 0x10000 then
          buf @ [bslash, CHR ''u'', lowerhex (r div 4096), lowerhex (r div 256),
                 lowerhex (r div 16), lowerhex r]
        else
          buf @ [bslash, CHR ''U'', lowerhex (r div 268435456), lowerhex (r div 16777216),
                 lowerhex (r div 1048576), lowerhex (r div 65536), lowerhex (r div 4096),
                 lowerhex (r div 256), lowerhex (r div 16), lowerhex r])"

text \<open>
  One step of a loop over the runes of a string (\<^verbatim>\<open>strconv.appendQuotedWith\<close>, and
  \<^verbatim>\<open>for _, r := range s\<close>): the rune at the front, which is the byte itself below
  \<open>RuneSelf\<close>, and its width.
\<close>

definition nextRune :: "char \<Rightarrow> string \<Rightarrow> nat \<times> nat" where
  "nextRune c rest =
     (if byte c \<ge> RuneSelf then DecodeRuneInString (c # rest) else (byte c, 1))"

text \<open>
  The loop of \<^verbatim>\<open>strconv.appendQuotedWith\<close>: an invalid byte is written as \<^verbatim>\<open>\xNN\<close>, every
  other rune goes through \<open>appendEscapedRune\<close>; the input advances by the rune's width.
\<close>

definition quoteStep :: "env \<Rightarrow> string \<Rightarrow> char \<Rightarrow> nat \<times> nat \<Rightarrow> string" where
  "quoteStep E buf c rw =
     (if snd rw = 1 \<and> fst rw = RuneError then
        buf @ [bslash, CHR ''x'', lowerhex (byte c div 16), lowerhex (byte c mod 16)]
      else appendEscapedRune E buf (fst rw))"

fun appendQuotedLoop :: "env \<Rightarrow> string \<Rightarrow> string \<Rightarrow> string" where
  "appendQuotedLoop E buf [] = buf"
| "appendQuotedLoop E buf (c # rest) =
     appendQuotedLoop E (quoteStep E buf c (nextRune c rest)) (drop (snd (nextRune c rest) - 1) rest)"

text \<open>\<^verbatim>\<open>fmt.Sprintf("%q", s)\<close>, which is \<^verbatim>\<open>strconv.Quote(s)\<close>.\<close>

definition Quote :: "env \<Rightarrow> string \<Rightarrow> string" where
  "Quote E s = appendQuotedLoop E [dquote] s @ [dquote]"

text \<open>The runes a \<^verbatim>\<open>for _, r := range s\<close> loop sees.\<close>

fun runes :: "string \<Rightarrow> nat list" where
  "runes [] = []"
| "runes (c # rest) = fst (nextRune c rest) # runes (drop (snd (nextRune c rest) - 1) rest)"

section \<open>Reading a quoted literal back (strconv.Unquote)\<close>

text \<open>
  \<^verbatim>\<open>strconv.Unquote\<close> for a literal in double quotes, which is the only form \<open>Quote\<close>
  writes; any other input is answered with \<open>None\<close>, as a syntax error is. The tail that
  \<^verbatim>\<open>UnquoteChar\<close> returns is given by the number of bytes it has consumed. The shortcut of
  \<^verbatim>\<open>Unquote\<close> for literals without escapes gives the result of the general loop and is
  not modelled apart.
\<close>

definition unhex :: "char \<Rightarrow> nat option" where
  "unhex c =
     (let b = byte c in
      if 0x30 \<le> b \<and> b \<le> 0x39 then Some (b - 0x30)
      else if 0x61 \<le> b \<and> b \<le> 0x66 then Some (b - 0x61 + 10)
      else if 0x41 \<le> b \<and> b \<le> 0x46 then Some (b - 0x41 + 10)
      else None)"

text \<open>The loop \<^verbatim>\<open>for j := 0; j < n; j++\<close> over the hexadecimal digits of an escape.\<close>

fun hexDigits :: "nat \<Rightarrow> string \<Rightarrow> nat \<Rightarrow> nat option" where
  "hexDigits 0 s v = Some v"
| "hexDigits (Suc n) [] v = None"
| "hexDigits (Suc n) (c # cs) v =
     (case unhex c of None \<Rightarrow> None | Some x \<Rightarrow> hexDigits n cs (v * 16 + x))"

text \<open>The two further digits of an octal escape.\<close>

fun octDigits :: "nat \<Rightarrow> string \<Rightarrow> nat \<Rightarrow> nat option" where
  "octDigits 0 s v = Some v"
| "octDigits (Suc n) [] v = None"
| "octDigits (Suc n) (c # cs) v =
     (if byte c < 0x30 \<or> 0x37 < byte c then None else octDigits n cs (v * 8 + (byte c - 0x30)))"

text \<open>
  \<^verbatim>\<open>strconv.UnquoteChar(s, '"')\<close> on the non-empty input \<open>c # s\<close>: the value, whether it is
  a multibyte rune, and the number of bytes consumed.
\<close>

definition unquoteEscape :: "char \<Rightarrow> string \<Rightarrow> (nat \<times> bool \<times> nat) option" where
  "unquoteEscape c s =
     (if c = CHR ''a'' then Some (0x07, False, 2)
      else if c = CHR ''b'' then Some (0x08, False, 2)
      else if c = CHR ''f'' then Some (0x0C, False, 2)
      else if c = CHR ''n'' then Some (0x0A, False, 2)
      else if c = CHR ''r'' then Some (0x0D, False, 2)
      else if c = CHR ''t'' then Some (0x09, False, 2)
      else if c = CHR ''v'' then Some (0x0B, False, 2)
      else if c = CHR ''x'' \<or> c = CHR ''u'' \<or> c = CHR ''U'' then
        (let n = (if c = CHR ''x'' then 2 else if c = CHR ''u'' then 4 else 8) in
         if length s < n then None
         else case hexDigits n s 0 of
                None \<Rightarrow> None
              | Some v \<Rightarrow>
                  if c = CHR ''x'' then Some (v, False, 2 + n)
                  else if \<not> ValidRune v then None
                  else Some (v, True, 2 + n))
      else if 0x30 \<le> byte c \<and> byte c \<le> 0x37 then
        (if length s < 2 then None
         else case octDigits 2 s (byte c - 0x30) of
                None \<Rightarrow> None
              | Some v \<Rightarrow> if v > 255 then None else Some (v, False, 4))
      else if c = bslash then Some (byte bslash, False, 2)
      else if c = CHR 0x27 \<or> c = dquote then
        (if c \<noteq> dquote then None else Some (byte c, False, 2))
      else None)"

definition UnquoteChar :: "char \<Rightarrow> string \<Rightarrow> (nat \<times> bool \<times> nat) option" where
  "UnquoteChar c s =
     (if c = dquote then None
      else if byte c \<ge> RuneSelf then
        Some (fst (DecodeRuneInString (c # s)), True, snd (DecodeRuneInString (c # s)))
      else if c \<noteq> bslash then Some (byte c, False, 1)
      else case s of
             [] \<Rightarrow> None
           | c2 # s2 \<Rightarrow> unquoteEscape c2 s2)"

text \<open>What one round of the loop of \<^verbatim>\<open>unquote\<close> appends for the character read.\<close>

definition unquoteAppend :: "string \<Rightarrow> nat \<times> bool \<times> nat \<Rightarrow> string" where
  "unquoteAppend buf v =
     (if fst v < RuneSelf \<or> \<not> fst (snd v) then buf @ [char_of (fst v)]
      else AppendRune buf (fst v))"

text \<open>
  The loop of \<^verbatim>\<open>unquote\<close> after the opening quote: it ends at the closing quote and
  returns the text read and what follows the literal.
\<close>

fun unquoteLoop :: "string \<Rightarrow> string \<Rightarrow> (string \<times> string) option" where
  "unquoteLoop [] buf = None"
| "unquoteLoop (c # rest) buf =
     (if c = dquote then Some (buf, rest)
      else if UnquoteChar c rest = None \<or> c = newline then None
      else unquoteLoop (drop (snd (snd (the (UnquoteChar c rest))) - 1) rest)
             (unquoteAppend buf (the (UnquoteChar c rest))))"

definition Unquote :: "string \<Rightarrow> string option" where
  "Unquote s =
     (if length s < 2 then None
      else if s ! 0 \<noteq> dquote then None
      else case unquoteLoop (tl s) [] of
             None \<Rightarrow> None
           | Some (out, rem) \<Rightarrow> if length rem > 0 then None else Some out)"

section \<open>Rendering of attribute values\<close>

definition needsQuoting :: "string \<Rightarrow> bool" where
  "needsQuoting s =
     list_ex (\<lambda>r. r = 0x20 \<or> r = 0x22 \<or> r = 0x3D \<or> r = 0x0A \<or> r = 0x0D \<or> r = 0x09) (runes s)"

definition formatValue :: "env \<Rightarrow> Value \<Rightarrow> string" where
  "formatValue E v =
     (case v of
        StringValue s \<Rightarrow> (if needsQuoting s then Quote E s else s)
      | TimeValue t \<Rightarrow> Time_Format E t ''2006-01-02T15:04:05.000Z07:00''
      | DurationValue d \<Rightarrow> Duration_String E d
      | _ \<Rightarrow> Sprintf_v E v)"

section \<open>ColorHandler\<close>

text \<open>
  \<open>output_ref\<close> (the field \<^verbatim>\<open>output\<close>) and \<open>mu\<close> are references (an \<^verbatim>\<open>io.Writer\<close> and a \<^verbatim>\<open>*sync.Mutex\<close>):
  two handlers share a sink or a lock exactly when the references are equal.
\<close>

record ColorHandler =
  opts :: HandlerOptions
  output_ref :: ref
  mu :: ref
  attrs :: "Attr list"
  groups :: "string list"
  preformat :: string

definition Enabled :: "ColorHandler \<Rightarrow> Level \<Rightarrow> bool" where
  "Enabled h level =
     (let minLevel = (case Leveler (opts h) of None \<Rightarrow> LevelInfo | Some l \<Rightarrow> l)
      in level \<ge> minLevel)"

definition WithGroup :: "ColorHandler \<Rightarrow> string \<Rightarrow> ColorHandler" where
  "WithGroup h name =
     (if name = [] then h
      else (let newGroups = groups h @ [name]
            in \<lparr> opts = opts h, output_ref = output_ref h, mu = mu h, attrs = attrs h,
                 groups = newGroups, preformat = preformat h \<rparr>))"

definition levelColor :: "Level \<Rightarrow> string" where
  "levelColor level =
     (if level \<ge> LevelError then colorRed
      else if level \<ge> LevelWarn then colorYellow
      else if level \<ge> LevelInfo then colorGreen
      else colorBlue)"

definition levelString :: "Level \<Rightarrow> string" where
  "levelString level =
     (if level \<ge> LevelError then ''ERR''
      else if level \<ge> LevelWarn then ''WRN''
      else if level \<ge> LevelInfo then ''INF''
      else ''DBG'')"

section \<open>appendAttr\<close>

text \<open>
  The replacement hook is caller-supplied code and may answer every attribute with a
  group, in which case \<^verbatim>\<open>appendAttr\<close> recurses for ever. The recursion depth is therefore
  bounded by a fuel argument, and \<open>None\<close> stands for a call that does not return.

  \<open>appendGroupAttrs\<close> is the loop \<^verbatim>\<open>for i, ga := range groupAttrs\<close>, with the recursive
  call passed as \<open>f\<close>.
\<close>

fun appendGroupAttrs ::
  "(string \<Rightarrow> Attr \<Rightarrow> string list \<Rightarrow> string option) \<Rightarrow> string \<Rightarrow> Attr list \<Rightarrow> nat \<Rightarrow> string list
     \<Rightarrow> string option" where
  "appendGroupAttrs f buf [] i newGroups = Some buf"
| "appendGroupAttrs f buf (ga # gas) i newGroups =
     (let buf1 = (if i > 0 \<or> length buf > 0 then buf @ '' '' else buf) in
      case f buf1 ga newGroups of
        None \<Rightarrow> None
      | Some buf2 \<Rightarrow> appendGroupAttrs f buf2 gas (i + 1) newGroups)"

definition buildKey :: "string list \<Rightarrow> string \<Rightarrow> string" where
  "buildKey gs key = fold (\<lambda>g key. g @ ''.'' @ key) gs key"

text \<open>The hook applied when one is configured (\<^verbatim>\<open>if h.opts.ReplaceAttr != nil\<close>).\<close>

definition applyReplaceAttr :: "HandlerOptions \<Rightarrow> string list \<Rightarrow> Attr \<Rightarrow> Attr" where
  "applyReplaceAttr ho gs a = (case ReplaceAttr ho of None \<Rightarrow> a | Some f \<Rightarrow> f gs a)"

primrec appendAttr ::
  "nat \<Rightarrow> env \<Rightarrow> HandlerOptions \<Rightarrow> string \<Rightarrow> Attr \<Rightarrow> string list \<Rightarrow> string option" where
  "appendAttr 0 E ho buf a gs = None"
| "appendAttr (Suc n) E ho buf a gs =
     (if isEmptyAttr a then Some buf
      else
        let a = applyReplaceAttr ho gs a in
        if ReplaceAttr ho \<noteq> None \<and> isEmptyAttr a then Some buf
        else
          let key = buildKey gs (Key a) in
          if Value_Kind (Value a) = KindGroup then
            (let groupAttrs = Group (Value a) in
             if length groupAttrs = 0 then Some buf
             else appendGroupAttrs (appendAttr n E ho) buf groupAttrs 0 (gs @ [Key a]))
          else Some (buf @ colorPurple @ key @ colorReset @ ''='' @ formatValue E (Value a)))"

section \<open>ColorHandler.WithAttrs\<close>

text \<open>The loop \<^verbatim>\<open>for _, a := range attrs\<close> of WithAttrs, with \<open>f\<close> for \<^verbatim>\<open>h.appendAttr\<close>.\<close>

fun preformatAttrs ::
  "(string \<Rightarrow> Attr \<Rightarrow> string list \<Rightarrow> string option) \<Rightarrow> string \<Rightarrow> Attr list \<Rightarrow> string list
     \<Rightarrow> string option" where
  "preformatAttrs f buf [] gs = Some buf"
| "preformatAttrs f buf (a # as) gs =
     (let buf1 = (if length buf > 0 then buf @ '' '' else buf) in
      case f buf1 a gs of
        None \<Rightarrow> None
      | Some buf2 \<Rightarrow> preformatAttrs f buf2 as gs)"

definition WithAttrs :: "nat \<Rightarrow> env \<Rightarrow> ColorHandler \<Rightarrow> Attr list \<Rightarrow> ColorHandler option" where
  "WithAttrs n E h as =
     (let newAttrs = attrs h @ as in
      case preformatAttrs (appendAttr n E (opts h)) [] as (groups h) of
        None \<Rightarrow> None
      | Some buf \<Rightarrow>
          let preformat1 = preformat h;
              preformat2 =
                (if length buf > 0
                 then (if preformat1 \<noteq> [] then preformat1 @ '' '' else preformat1) @ buf
                 else preformat1)
          in Some \<lparr> opts = opts h, output_ref = output_ref h, mu = mu h, attrs = newAttrs,
                    groups = groups h, preformat = preformat2 \<rparr>)"

section \<open>ColorHandler.formatSource\<close>

fun digits :: "nat \<Rightarrow> string" where
  "digits n =
     (if n < 10 then [char_of (48 + n)]
      else digits (n div 10) @ [char_of (48 + n mod 10)])"

text \<open>The verb \<^verbatim>\<open>%d\<close> on an int.\<close>

definition itoa :: "int \<Rightarrow> string" where
  "itoa i = (if i < 0 then ''-'' @ digits (nat (- i)) else digits (nat i))"

text \<open>
  The loop \<^verbatim>\<open>for i := len(frame.File) - 1; i > 0; i--\<close>: \<open>shortFile file i\<close> is the value
  of \<^verbatim>\<open>short\<close> when the loop is entered with counter \<open>i\<close>.
\<close>

fun shortFile :: "string \<Rightarrow> nat \<Rightarrow> string" where
  "shortFile file 0 = file"
| "shortFile file (Suc i) =
     (if file ! Suc i = CHR ''/'' then drop (Suc i + 1) file else shortFile file i)"

definition formatSource :: "env \<Rightarrow> 64 word \<Rightarrow> string" where
  "formatSource E pc =
     (let frame = CallersFrames_Next E pc in
      if File frame \<noteq> [] then
        (let short = shortFile (File frame) (length (File frame) - 1)
         in short @ '':'' @ itoa (Line frame))
      else [])"

section \<open>ColorHandler.Handle\<close>

definition TimeKey :: string where "TimeKey = ''time''"

text \<open>The callback of \<^verbatim>\<open>r.Attrs\<close> in Handle, run over the record's attributes in order.\<close>

fun handleAttrs ::
  "(string \<Rightarrow> Attr \<Rightarrow> string list \<Rightarrow> string option) \<Rightarrow> string \<Rightarrow> Attr list \<Rightarrow> string list
     \<Rightarrow> string option" where
  "handleAttrs f buf [] gs = Some buf"
| "handleAttrs f buf (a # as) gs =
     (case f (buf @ '' '') a gs of
        None \<Rightarrow> None
      | Some buf2 \<Rightarrow> handleAttrs f buf2 as gs)"

text \<open>
  The sections of Handle that come before the record's attributes, each as the bytes it
  appends: timestamp, level, source, message, pre-formatted attributes.
\<close>

definition timestampPart :: "env \<Rightarrow> ColorHandler \<Rightarrow> Record \<Rightarrow> string" where
  "timestampPart E h r =
     (if \<not> IsZero (Time r) then
        colorGray
        @ (case ReplaceAttr (opts h) of
             Some f \<Rightarrow> Value_String E (Value (f [] (Attr TimeKey (TimeValue (Time r)))))
           | None \<Rightarrow> Time_Format E (Time r) ''2006-01-02 15:04:05'')
        @ colorReset @ '' ''
      else [])"

definition levelPart :: "Record \<Rightarrow> string" where
  "levelPart r = levelColor (Level r) @ levelString (Level r) @ colorReset @ '' ''"

definition sourcePart :: "env \<Rightarrow> ColorHandler \<Rightarrow> Record \<Rightarrow> string" where
  "sourcePart E h r =
     (if AddSource (opts h) \<and> PC r \<noteq> 0 then
        colorCyan @ formatSource E (PC r) @ colorReset @ '' ''
      else [])"

definition messagePart :: "Record \<Rightarrow> string" where
  "messagePart r = colorBold @ Message r @ colorReset"

definition preformatPart :: "ColorHandler \<Rightarrow> string" where
  "preformatPart h = (if preformat h \<noteq> [] then '' '' @ preformat h else [])"

definition handleHead :: "env \<Rightarrow> ColorHandler \<Rightarrow> Record \<Rightarrow> string" where
  "handleHead E h r =
     timestampPart E h r @ levelPart r @ sourcePart E h r @ messagePart r @ preformatPart h"

text \<open>
  Handle: the line is built, then written with one call of \<^verbatim>\<open>h.output.Write\<close> under the
  lock; the result is the new history of writes and the error of that call.
\<close>

definition Handle ::
  "nat \<Rightarrow> env \<Rightarrow> ColorHandler \<Rightarrow> Record \<Rightarrow> trace \<Rightarrow> (trace \<times> error option) option" where
  "Handle n E h r tr =
     (case handleAttrs (appendAttr n E (opts h)) (handleHead E h r) (rattrs r) (groups h) of
        None \<Rightarrow> None
      | Some buf \<Rightarrow>
          let buf = buf @ [newline];
              err = Write E (output_ref h) tr buf
          in Some (tr @ [(output_ref h, buf)], err))"

section \<open>Records\<close>

text \<open>
  \<^verbatim>\<open>slog.NewRecord\<close>, \<^verbatim>\<open>Record.AddAttrs\<close> and \<^verbatim>\<open>Record.Add\<close> of log/slog. Both adders
  omit attributes whose value is an empty group. The variadic arguments of a logging
  call are taken as the attributes log/slog collects from them.
\<close>

definition NewRecord :: "Time \<Rightarrow> Level \<Rightarrow> string \<Rightarrow> 64 word \<Rightarrow> Record" where
  "NewRecord t level msg pc = \<lparr> Time = t, Level = level, Message = msg, PC = pc, rattrs = [] \<rparr>"

definition AddAttrs :: "Record \<Rightarrow> Attr list \<Rightarrow> Record" where
  "AddAttrs r as = r\<lparr> rattrs := rattrs r @ filter (\<lambda>a. \<not> isEmptyGroup (Value a)) as \<rparr>"

definition Add :: "Record \<Rightarrow> Attr list \<Rightarrow> Record" where
  "Add r args = r\<lparr> rattrs := rattrs r @ filter (\<lambda>a. \<not> isEmptyGroup (Value a)) args \<rparr>"

text \<open>No attribute of a record built through these functions is an empty group.\<close>

definition wf_Record :: "Record \<Rightarrow> bool" where
  "wf_Record r = list_all (\<lambda>a. \<not> isEmptyGroup (Value a)) (rattrs r)"

section \<open>ContextHandler\<close>

text \<open>
  A context is read through \<^verbatim>\<open>ctx.Value(key)\<close> only: \<open>None\<close> is the nil answer, \<open>Some v\<close>
  a non-nil answer that \<^verbatim>\<open>slog.Any\<close> turns into the value \<open>v\<close>.
\<close>

type_synonym ContextKey = string

definition TraceIDKey :: ContextKey where "TraceIDKey = ''trace_id''"
definition UserIDKey :: ContextKey where "UserIDKey = ''user_id''"
definition RequestIDKey :: ContextKey where "RequestIDKey = ''request_id''"
definition SessionIDKey :: ContextKey where "SessionIDKey = ''session_id''"
definition SpanIDKey :: ContextKey where "SpanIDKey = ''span_id''"

type_synonym Context = "ContextKey \<Rightarrow> Value option"

definition WithContext :: "Context \<Rightarrow> ContextKey \<Rightarrow> Value option \<Rightarrow> Context" where
  "WithContext ctx key v = ctx(key := v)"

record 'h ContextHandler =
  handler :: 'h
  keys :: "ContextKey list"

text \<open>The loop of \<^verbatim>\<open>ContextHandler.Handle\<close> that collects the attributes found in the context.\<close>

fun contextAttrs :: "Context \<Rightarrow> ContextKey list \<Rightarrow> Attr list \<Rightarrow> Attr list" where
  "contextAttrs ctx [] as = as"
| "contextAttrs ctx (key # ks) as =
     (case ctx key of
        Some v \<Rightarrow> contextAttrs ctx ks (as @ [Attr key v])
      | None \<Rightarrow> contextAttrs ctx ks as)"

text \<open>
  The wrapped handler is an interface value; its methods are passed as \<open>inner\<close>.
\<close>

definition ContextHandler_Enabled ::
  "('h \<Rightarrow> Context \<Rightarrow> Level \<Rightarrow> bool) \<Rightarrow> 'h ContextHandler \<Rightarrow> Context \<Rightarrow> Level \<Rightarrow> bool" where
  "ContextHandler_Enabled inner h ctx level = inner (handler h) ctx level"

definition ContextHandler_Handle ::
  "('h \<Rightarrow> Context \<Rightarrow> Record \<Rightarrow> 'r) \<Rightarrow> 'h ContextHandler \<Rightarrow> Context \<Rightarrow> Record \<Rightarrow> 'r" where
  "ContextHandler_Handle inner h ctx r =
     (let as = contextAttrs ctx (keys h) [] in
      if length as > 0 then
        (let r2 = NewRecord (Time r) (Level r) (Message r) (PC r);
             r2 = AddAttrs r2 as;
             r2 = fold (\<lambda>a r2. AddAttrs r2 [a]) (rattrs r) r2
         in inner (handler h) ctx r2)
      else inner (handler h) ctx r)"

definition ContextHandler_WithAttrs ::
  "('h \<Rightarrow> Attr list \<Rightarrow> 'h option) \<Rightarrow> 'h ContextHandler \<Rightarrow> Attr list \<Rightarrow> 'h ContextHandler option" where
  "ContextHandler_WithAttrs inner h as =
     (case inner (handler h) as of
        None \<Rightarrow> None
      | Some h' \<Rightarrow> Some \<lparr> handler = h', keys = keys h \<rparr>)"

definition ContextHandler_WithGroup ::
  "('h \<Rightarrow> string \<Rightarrow> 'h) \<Rightarrow> 'h ContextHandler \<Rightarrow> string \<Rightarrow> 'h ContextHandler" where
  "ContextHandler_WithGroup inner h name = \<lparr> handler = inner (handler h) name, keys = keys h \<rparr>"

section \<open>Logging entry points\<close>

text \<open>
  A logger of the development chain: the ContextHandler around a ColorHandler that
  \<^verbatim>\<open>Init\<close> installs. The logging functions return no value; the model returns the history
  of writes after the call, and \<open>None\<close> when the call does not return.
\<close>

type_synonym Logger = "ColorHandler ContextHandler"

definition callerSkip :: nat where "callerSkip = 3"

definition logWithCaller ::
  "nat \<Rightarrow> env \<Rightarrow> Context \<Rightarrow> Logger \<Rightarrow> Level \<Rightarrow> string \<Rightarrow> Attr list \<Rightarrow> trace \<Rightarrow> trace option" where
  "logWithCaller n E ctx logger level msg args tr =
     (if \<not> ContextHandler_Enabled (\<lambda>h ctx level. Enabled h level) logger ctx level then Some tr
      else
        let pc = Callers E callerSkip;
            r = NewRecord (Now E) level msg pc;
            r = Add r args
        in case ContextHandler_Handle (\<lambda>h ctx r. Handle n E h r tr) logger ctx r of
             None \<Rightarrow> None
           | Some (tr', err) \<Rightarrow> Some tr')"

text \<open>The free functions log through the default logger, the methods through their receiver.\<close>

definition Debug :: "nat \<Rightarrow> env \<Rightarrow> Logger \<Rightarrow> Context \<Rightarrow> string \<Rightarrow> Attr list \<Rightarrow> trace \<Rightarrow> trace option" where
  "Debug n E defaultLogger ctx msg args tr = logWithCaller n E ctx defaultLogger LevelDebug msg args tr"

definition Info :: "nat \<Rightarrow> env \<Rightarrow> Logger \<Rightarrow> Context \<Rightarrow> string \<Rightarrow> Attr list \<Rightarrow> trace \<Rightarrow> trace option" where
  "Info n E defaultLogger ctx msg args tr = logWithCaller n E ctx defaultLogger LevelInfo msg args tr"

definition Warn :: "nat \<Rightarrow> env \<Rightarrow> Logger \<Rightarrow> Context \<Rightarrow> string \<Rightarrow> Attr list \<Rightarrow> trace \<Rightarrow> trace option" where
  "Warn n E defaultLogger ctx msg args tr = logWithCaller n E ctx defaultLogger LevelWarn msg args tr"

definition Error :: "nat \<Rightarrow> env \<Rightarrow> Logger \<Rightarrow> Context \<Rightarrow> string \<Rightarrow> Attr list \<Rightarrow> trace \<Rightarrow> trace option" where
  "Error n E defaultLogger ctx msg args tr = logWithCaller n E ctx defaultLogger LevelError msg args tr"

definition Logger_Debug :: "nat \<Rightarrow> env \<Rightarrow> Logger \<Rightarrow> Context \<Rightarrow> string \<Rightarrow> Attr list \<Rightarrow> trace \<Rightarrow> trace option" where
  "Logger_Debug n E l ctx msg args tr = logWithCaller n E ctx l LevelDebug msg args tr"

definition Logger_Info :: "nat \<Rightarrow> env \<Rightarrow> Logger \<Rightarrow> Context \<Rightarrow> string \<Rightarrow> Attr list \<Rightarrow> trace \<Rightarrow> trace option" where
  "Logger_Info n E l ctx msg args tr = logWithCaller n E ctx l LevelInfo msg args tr"

definition Logger_Warn :: "nat \<Rightarrow> env \<Rightarrow> Logger \<Rightarrow> Context \<Rightarrow> string \<Rightarrow> Attr list \<Rightarrow> trace \<Rightarrow> trace option" where
  "Logger_Warn n E l ctx msg args tr = logWithCaller n E ctx l LevelWarn msg args tr"

definition Logger_Error :: "nat \<Rightarrow> env \<Rightarrow> Logger \<Rightarrow> Context \<Rightarrow> string \<Rightarrow> Attr list \<Rightarrow> trace \<Rightarrow> trace option" where
  "Logger_Error n E l ctx msg args tr = logWithCaller n E ctx l LevelError msg args tr"

section \<open>Init\<close>

text \<open>
  \<^verbatim>\<open>Environment\<close> is a string type with two named values; any other string is \<open>OtherEnv\<close>.
\<close>

datatype Environment = Development | Production | OtherEnv string

record config =
  cfg_env :: Environment
  level :: Level
  output_cfg :: ref
  addSource :: bool
  timeFormat :: string
  contextKeys :: "ContextKey list"

text \<open>The replacement hook that \<^verbatim>\<open>Init\<close> puts into the handler options.\<close>

definition Init_ReplaceAttr :: "env \<Rightarrow> config \<Rightarrow> string list \<Rightarrow> Attr \<Rightarrow> Attr" where
  "Init_ReplaceAttr E cfg gs a =
     (if Key a = TimeKey \<and> cfg_env cfg = Development then
        (case Value a of
           TimeValue t \<Rightarrow> Attr TimeKey (StringValue (Time_Format E t (timeFormat cfg)))
         | _ \<Rightarrow> a)
      else a)"

definition Init_handlerOpts :: "env \<Rightarrow> config \<Rightarrow> HandlerOptions" where
  "Init_handlerOpts E cfg =
     \<lparr> AddSource = addSource cfg, Leveler = Some (level cfg),
       ReplaceAttr = Some (Init_ReplaceAttr E cfg) \<rparr>"

text \<open>\<open>freshMu\<close> is the reference of the mutex that NewColorHandler allocates.\<close>

definition NewColorHandler :: "ref \<Rightarrow> ref \<Rightarrow> HandlerOptions \<Rightarrow> ColorHandler" where
  "NewColorHandler freshMu out ho =
     \<lparr> opts = ho, output_ref = out, mu = freshMu, attrs = [], groups = [], preformat = [] \<rparr>"

definition NewContextHandler :: "'h \<Rightarrow> ContextKey list \<Rightarrow> 'h ContextHandler" where
  "NewContextHandler h ks = \<lparr> handler = h, keys = ks \<rparr>"

text \<open>
  The base handler \<^verbatim>\<open>Init\<close> chooses: the JSON handler of log/slog in production, which is
  outside this model and kept as the arguments of \<^verbatim>\<open>slog.NewJSONHandler\<close>, and a
  ColorHandler in every other environment.
\<close>

datatype Handler = ColorH ColorHandler | JSONH ref HandlerOptions

text \<open>The handler chain \<^verbatim>\<open>Init\<close> builds from the final configuration.\<close>

definition Init :: "env \<Rightarrow> ref \<Rightarrow> config \<Rightarrow> Handler ContextHandler" where
  "Init E freshMu cfg =
     (let handlerOpts = Init_handlerOpts E cfg;
          baseHandler =
            (case cfg_env cfg of
               Production \<Rightarrow> JSONH (output_cfg cfg) handlerOpts
             | _ \<Rightarrow> ColorH (NewColorHandler freshMu (output_cfg cfg) handlerOpts));
          ctxHandler = NewContextHandler baseHandler (contextKeys cfg)
      in ctxHandler)"

section \<open>Nesting depth of attributes\<close>

text \<open>
  The number of group levels inside an attribute; it bounds the recursion depth of
  appendAttr when the replacement hook does not deepen the attributes it is given.
\<close>

primrec depthV :: "Value \<Rightarrow> nat" and depth :: "Attr \<Rightarrow> nat" where
  "depthV (AnyValue x) = 0"
| "depthV (BoolValue b) = 0"
| "depthV (DurationValue d) = 0"
| "depthV (Float64Value f) = 0"
| "depthV (Int64Value i) = 0"
| "depthV (StringValue s) = 0"
| "depthV (TimeValue t) = 0"
| "depthV (Uint64Value u) = 0"
| "depthV (GroupValue gs) = Suc (fold max (map depth gs) 0)"
| "depth (Attr k v) = depthV v"

definition maxDepth :: "Attr list \<Rightarrow> nat" where
  "maxDepth as = fold max (map depth as) 0"

definition hook_bounded :: "HandlerOptions \<Rightarrow> bool" where
  "hook_bounded ho =
     (case ReplaceAttr ho of None \<Rightarrow> True | Some f \<Rightarrow> \<forall>gs a. depth (f gs a) \<le> depth a)"

section \<open>A small instance of the library record, for running the model\<close>

definition plainEnv :: env where
  "plainEnv =
     \<lparr> Time_Format = (\<lambda>t layout. ''12:00''), Duration_String = (\<lambda>d. ''1s''),
       Sprintf_v = (\<lambda>v. ''v''), Value_String_other = (\<lambda>v. ''s''), IsPrint_table = (\<lambda>r. True),
       CallersFrames_Next = (\<lambda>pc. if pc = 1 then \<lparr> File = ''/src/app/main.go'', Line = 25 \<rparr>
                                   else if pc = 3 then \<lparr> File = ''/main.go'', Line = 7 \<rparr>
                                   else \<lparr> File = [], Line = 0 \<rparr>),
       Write = (\<lambda>w tr p. if w = 0 then Some (WriteError ''closed'') else None),
       Now = 1, Callers = (\<lambda>skip. 1) \<rparr>"

definition plainOpts :: HandlerOptions where
  "plainOpts = \<lparr> AddSource = True, Leveler = None, ReplaceAttr = None \<rparr>"

definition plainHandler :: ColorHandler where
  "plainHandler = NewColorHandler 2 1 plainOpts"

definition plainLogger :: Logger where
  "plainLogger = NewContextHandler plainHandler [TraceIDKey, UserIDKey, RequestIDKey]"

definition plainConfig :: config where
  "plainConfig =
     \<lparr> cfg_env = Development, level = LevelInfo, output_cfg = 1, addSource = True,
       timeFormat = ''15:04'', contextKeys = [TraceIDKey, UserIDKey, RequestIDKey] \<rparr>"

section \<open>Notions used to state and prove the quoting properties\<close>

text \<open>
  The bounds \<open>acceptRanges\<close> gives for the second byte of a three-byte and of a
  four-byte sequence with lead byte \<open>b\<close>.
\<close>

definition lo3 :: "nat \<Rightarrow> nat" where "lo3 b = (if b = 0xE0 then 0xA0 else 0x80)"
definition hi3 :: "nat \<Rightarrow> nat" where "hi3 b = (if b = 0xED then 0x9F else 0xBF)"
definition lo4 :: "nat \<Rightarrow> nat" where "lo4 b = (if b = 0xF0 then 0x90 else 0x80)"
definition hi4 :: "nat \<Rightarrow> nat" where "hi4 b = (if b = 0xF4 then 0x8F else 0xBF)"

text \<open>The runes that make needsQuoting answer true.\<close>

definition special :: "nat \<Rightarrow> bool" where
  "special r = (r = 0x20 \<or> r = 0x22 \<or> r = 0x3D \<or> r = 0x0A \<or> r = 0x0D \<or> r = 0x09)"

text \<open>A byte that is neither a control character nor DEL.\<close>

definition visible :: "char \<Rightarrow> bool" where
  "visible c = (0x20 \<le> byte c \<and> byte c \<noteq> 0x7F)"

section \<open>Notions used to state the properties of a logging call\<close>

text \<open>
  The record that a logging call hands to the ColorHandler: the record logWithCaller
  builds, as ContextHandler.Handle passes it on.
\<close>

definition handedRecord :: "env \<Rightarrow> Context \<Rightarrow> Logger \<Rightarrow> Level \<Rightarrow> string \<Rightarrow> Attr list \<Rightarrow> Record" where
  "handedRecord E ctx l lvl msg args =
     ContextHandler_Handle (\<lambda>h ctx r. r) l ctx
       (Add (NewRecord (Now E) lvl msg (Callers E callerSkip)) args)"

text \<open>A text without a newline byte.\<close>

definition nlfree :: "string \<Rightarrow> bool" where
  "nlfree s = (newline \<notin> set s)"

text \<open>
  An attribute whose rendering cannot contain a newline byte: its key and the keys below
  it hold none, and every value that is neither a string nor a group is rendered by the
  library without one. String values need no condition.
\<close>

primrec lineSafeV :: "env \<Rightarrow> Value \<Rightarrow> bool" and lineSafe :: "env \<Rightarrow> Attr \<Rightarrow> bool" where
  "lineSafeV E (AnyValue x) = nlfree (Sprintf_v E (AnyValue x))"
| "lineSafeV E (BoolValue b) = nlfree (Sprintf_v E (BoolValue b))"
| "lineSafeV E (DurationValue d) = nlfree (Duration_String E d)"
| "lineSafeV E (Float64Value f) = nlfree (Sprintf_v E (Float64Value f))"
| "lineSafeV E (Int64Value i) = nlfree (Sprintf_v E (Int64Value i))"
| "lineSafeV E (StringValue s) = True"
| "lineSafeV E (TimeValue t) = nlfree (Time_Format E t ''2006-01-02T15:04:05.000Z07:00'')"
| "lineSafeV E (Uint64Value u) = nlfree (Sprintf_v E (Uint64Value u))"
| "lineSafeV E (GroupValue gs) = list_all (\<lambda>b. b) (map (lineSafe E) gs)"
| "lineSafe E (Attr k v) = (nlfree k \<and> lineSafeV E v)"

text \<open>A replacement hook that answers such attributes with such attributes.\<close>

definition hook_lineSafe :: "env \<Rightarrow> HandlerOptions \<Rightarrow> bool" where
  "hook_lineSafe E ho =
     (case ReplaceAttr ho of None \<Rightarrow> True | Some f \<Rightarrow> \<forall>gs a. lineSafe E a \<longrightarrow> lineSafe E (f gs a))"

section \<open>Unfolding rules shared by the proofs\<close>

lemmas level_defs = LevelDebug_def LevelInfo_def LevelWarn_def LevelError_def

lemmas color_defs = colorReset_def colorRed_def colorGreen_def colorYellow_def colorBlue_def
  colorPurple_def colorCyan_def colorGray_def colorBold_def ESC_def

section \<open>Level badge\<close>

text \<open>
  Claim C5. For every level the badge and its colour are decided by inclusive thresholds:
  ERR in red exactly from the error level upwards, WRN in yellow exactly from the warn
  level up to just below error, INF in green exactly from info up to just below warn, and
  DBG in blue exactly for every level below info, which covers the debug level and every
  level below it.
\<close>

theorem level_badge_thresholds:
  "(LevelError \<le> l \<longleftrightarrow> (levelString l, levelColor l) = (''ERR'', colorRed)) \<and>
   (LevelWarn \<le> l \<and> l < LevelError \<longleftrightarrow> (levelString l, levelColor l) = (''WRN'', colorYellow)) \<and>
   (LevelInfo \<le> l \<and> l < LevelWarn \<longleftrightarrow> (levelString l, levelColor l) = (''INF'', colorGreen)) \<and>
   (l < LevelInfo \<longleftrightarrow> (levelString l, levelColor l) = (''DBG'', colorBlue)) \<and>
   LevelDebug < LevelInfo"
  by (simp add: levelString_def levelColor_def level_defs color_defs)

section \<open>Binding a group name\<close>

text \<open>
  Claim C10. WithGroup with the empty name returns the receiver, so nothing of it
  changes. With a non-empty name the result has the receiver's group path with the name
  appended, and the same sink reference, lock reference, bound attributes, pre-rendered
  text and options as the receiver.
\<close>

theorem WithGroup_empty_identity_nonempty_appends:
  "WithGroup h [] = h \<and>
   (name \<noteq> [] \<longrightarrow>
      groups (WithGroup h name) = groups h @ [name] \<and>
      output_ref (WithGroup h name) = output_ref h \<and>
      mu (WithGroup h name) = mu h \<and>
      attrs (WithGroup h name) = attrs h \<and>
      preformat (WithGroup h name) = preformat h \<and>
      opts (WithGroup h name) = opts h)"
  by (simp add: WithGroup_def)

theorem WithGroup_witness:
  "''http'' \<noteq> [] \<and> WithGroup plainHandler [] = plainHandler \<and>
   groups (WithGroup plainHandler ''http'') = groups plainHandler @ [''http''] \<and>
   output_ref (WithGroup plainHandler ''http'') = output_ref plainHandler \<and>
   mu (WithGroup plainHandler ''http'') = mu plainHandler"
  using WithGroup_empty_identity_nonempty_appends [of plainHandler "''http''"] by simp

section \<open>Keys under a group path\<close>

text \<open>
  The key loop of appendAttr puts each group name in front of what it has built so far,
  so the path comes out innermost name first.
\<close>

lemma buildKey_rev: "buildKey gs key = concat (map (\<lambda>g. g @ ''.'') (rev gs)) @ key"
  unfolding buildKey_def by (induction gs arbitrary: key) simp_all

text \<open>
  Claim C1. Under the group path http, req the key method should be rendered as
  http.req.method. The code renders req.http.method, both when the path comes from
  bound group names and when it comes from nested group-kind attribute values.
\<close>

theorem appendAttr_group_path_reversed:
  "appendAttr 1 plainEnv plainOpts [] (Attr ''method'' (StringValue ''GET'')) [''http'', ''req'']
     = Some (colorPurple @ ''req.http.method'' @ colorReset @ ''=GET'') \<and>
   appendAttr 3 plainEnv plainOpts []
       (Attr ''http'' (GroupValue [Attr ''req'' (GroupValue [Attr ''method'' (StringValue ''GET'')])])) []
     = Some (colorPurple @ ''req.http.method'' @ colorReset @ ''=GET'')"
  by (simp add: numeral_3_eq_3 isEmptyAttr_def emptyAttr_def plainOpts_def applyReplaceAttr_def
      buildKey_def formatValue_def needsQuoting_def nextRune_def byte_def RuneSelf_def)

section \<open>Binding attributes in one call or in two\<close>

text \<open>
  Claim C6. Binding a=1 and then the group g with x=1 pre-renders the two attributes
  with one space between them; binding both in a single call pre-renders them with two
  spaces between them, so the two handlers do not render identically.
\<close>

theorem WithAttrs_split_differs:
  "map_option preformat
     (Option.bind (WithAttrs 2 plainEnv plainHandler [Attr ''a'' (StringValue ''1'')])
        (\<lambda>h. WithAttrs 2 plainEnv h [Attr ''g'' (GroupValue [Attr ''x'' (StringValue ''1'')])]))
     = Some (colorPurple @ ''a'' @ colorReset @ ''=1'' @ '' '' @ colorPurple @ ''g.x'' @ colorReset @ ''=1'') \<and>
   map_option preformat
     (WithAttrs 2 plainEnv plainHandler
        [Attr ''a'' (StringValue ''1''), Attr ''g'' (GroupValue [Attr ''x'' (StringValue ''1'')])])
     = Some (colorPurple @ ''a'' @ colorReset @ ''=1'' @ ''  '' @ colorPurple @ ''g.x'' @ colorReset @ ''=1'')"
  by (simp add: numeral_2_eq_2 WithAttrs_def plainHandler_def NewColorHandler_def isEmptyAttr_def
      emptyAttr_def plainOpts_def applyReplaceAttr_def buildKey_def formatValue_def needsQuoting_def
      nextRune_def byte_def RuneSelf_def color_defs)

section \<open>Context injection\<close>

lemma contextAttrs_eq:
  "contextAttrs ctx ks as = as @ concat (map (\<lambda>k. case ctx k of Some v \<Rightarrow> [Attr k v] | None \<Rightarrow> []) ks)"
  by (induction ks arbitrary: as) (auto split: option.splits)

lemma fold_AddAttrs:
  "fold (\<lambda>a r2. AddAttrs r2 [a]) xs r2
     = r2\<lparr> rattrs := rattrs r2 @ filter (\<lambda>a. \<not> isEmptyGroup (Value a)) xs \<rparr>"
  by (induction xs arbitrary: r2) (simp_all add: AddAttrs_def)

lemma filter_found:
  "filter (\<lambda>a. \<not> isEmptyGroup (Value a)) (concat (map (\<lambda>k. case ctx k of Some v \<Rightarrow> [Attr k v] | None \<Rightarrow> []) ks))
     = concat (map (\<lambda>k. case ctx k of Some v \<Rightarrow> if isEmptyGroup v then [] else [Attr k v] | None \<Rightarrow> []) ks)"
  by (induction ks) (auto split: option.splits)

lemma wf_filter: "wf_Record r \<Longrightarrow> filter (\<lambda>a. \<not> isEmptyGroup (Value a)) (rattrs r) = rattrs r"
  by (simp add: wf_Record_def list_all_iff)

lemma Record_update_rattrs:
  "(r::Record)\<lparr> rattrs := X \<rparr>
     = \<lparr> Time = Time r, Level = Level r, Message = Message r, PC = PC r, rattrs = X \<rparr>"
  by (cases r) simp

text \<open>
  Claim C4, as stated, fails where a recognized key holds an empty group: the value is
  present in the context, yet the record handed to the wrapped handler carries no
  attribute for it, because AddAttrs omits empty groups.
\<close>

theorem ContextHandler_Handle_drops_empty_group:
  "rattrs (ContextHandler_Handle (\<lambda>h c r. r) \<lparr> handler = plainHandler, keys = [TraceIDKey] \<rparr>
       (WithContext (\<lambda>k. None) TraceIDKey (Some (GroupValue [])))
       (Add (NewRecord 1 LevelInfo ''m'' 0) [Attr ''k'' (StringValue ''v'')]))
     = [Attr ''k'' (StringValue ''v'')] \<and>
   WithContext (\<lambda>k. None) TraceIDKey (Some (GroupValue [])) TraceIDKey \<noteq> None"
  by (simp add: ContextHandler_Handle_def AddAttrs_def Add_def NewRecord_def WithContext_def
      TraceIDKey_def)

text \<open>
  Claim C4, amended. The recognized keys are looked up in configured order; every key
  whose context value is present and is not an empty group becomes an attribute with the
  key's string form and that value; these attributes stand, in recognized-key order,
  ahead of the record's own attributes, which keep their order, in the record handed to
  the wrapped handler, whose time, level, message and call-site token are those of the
  original record. When no recognized key has a value, the original record itself is
  handed on.
\<close>

theorem ContextHandler_Handle_prepends:
  "(wf_Record r \<longrightarrow>
     ContextHandler_Handle inner h ctx r
       = inner (handler h) ctx
           (r\<lparr> rattrs :=
                 concat (map (\<lambda>k. case ctx k of
                                     Some v \<Rightarrow> if isEmptyGroup v then [] else [Attr k v]
                                   | None \<Rightarrow> []) (keys h))
                 @ rattrs r \<rparr>)) \<and>
   ((\<forall>k \<in> set (keys h). ctx k = None) \<longrightarrow>
     ContextHandler_Handle inner h ctx r = inner (handler h) ctx r)"
proof (intro conjI impI)
  assume wf: "wf_Record r"
  let ?found = "concat (map (\<lambda>k. case ctx k of Some v \<Rightarrow> [Attr k v] | None \<Rightarrow> []) (keys h))"
  show "ContextHandler_Handle inner h ctx r
       = inner (handler h) ctx
           (r\<lparr> rattrs :=
                 concat (map (\<lambda>k. case ctx k of
                                     Some v \<Rightarrow> if isEmptyGroup v then [] else [Attr k v]
                                   | None \<Rightarrow> []) (keys h))
                 @ rattrs r \<rparr>)"
  proof (cases "?found = []")
    case True
    have "filter (\<lambda>a. \<not> isEmptyGroup (Value a)) ?found = []" using True by simp
    then have e: "concat (map (\<lambda>k. case ctx k of
                                     Some v \<Rightarrow> if isEmptyGroup v then [] else [Attr k v]
                                   | None \<Rightarrow> []) (keys h)) = []"
      by (simp only: filter_found)
    show ?thesis
      unfolding e using True by (simp add: ContextHandler_Handle_def contextAttrs_eq)
  next
    case False
    then show ?thesis
      unfolding ContextHandler_Handle_def Let_def fold_AddAttrs contextAttrs_eq
      using wf_filter [OF wf]
      by (simp add: NewRecord_def AddAttrs_def filter_found Record_update_rattrs)
  qed
next
  assume "\<forall>k \<in> set (keys h). ctx k = None"
  then have "concat (map (\<lambda>k. case ctx k of Some v \<Rightarrow> [Attr k v] | None \<Rightarrow> []) (keys h)) = []"
    by (induction "keys h") auto
  then show "ContextHandler_Handle inner h ctx r = inner (handler h) ctx r"
    by (simp add: ContextHandler_Handle_def contextAttrs_eq)
qed

theorem ContextHandler_Handle_witness:
  "wf_Record (Add (NewRecord 1 LevelInfo ''m'' 0) [Attr ''k'' (StringValue ''v'')]) \<and>
   rattrs (ContextHandler_Handle (\<lambda>h c r. r)
       \<lparr> handler = plainHandler, keys = [TraceIDKey, UserIDKey, RequestIDKey] \<rparr>
       (WithContext (WithContext (\<lambda>k. None) TraceIDKey (Some (StringValue ''trace-123'')))
          UserIDKey (Some (StringValue ''user-456'')))
       (Add (NewRecord 1 LevelInfo ''m'' 0) [Attr ''k'' (StringValue ''v'')]))
     = [Attr ''trace_id'' (StringValue ''trace-123''), Attr ''user_id'' (StringValue ''user-456''),
        Attr ''k'' (StringValue ''v'')] \<and>
   ContextHandler_Handle (\<lambda>h c r. r) \<lparr> handler = plainHandler, keys = [TraceIDKey] \<rparr> (\<lambda>k. None)
       (NewRecord 1 LevelInfo ''m'' 0) = NewRecord 1 LevelInfo ''m'' 0"
  using ContextHandler_Handle_prepends [of "Add (NewRecord 1 LevelInfo ''m'' 0) [Attr ''k'' (StringValue ''v'')]"
      "\<lambda>h c r. r" "\<lparr> handler = plainHandler, keys = [TraceIDKey, UserIDKey, RequestIDKey] \<rparr>"
      "WithContext (WithContext (\<lambda>k. None) TraceIDKey (Some (StringValue ''trace-123'')))
          UserIDKey (Some (StringValue ''user-456''))"]
    ContextHandler_Handle_prepends [of "NewRecord 1 LevelInfo ''m'' 0" "\<lambda>h c r. r"
      "\<lparr> handler = plainHandler, keys = [TraceIDKey] \<rparr>" "\<lambda>k. None"]
  by (simp add: wf_Record_def Add_def NewRecord_def WithContext_def TraceIDKey_def UserIDKey_def
      RequestIDKey_def)

section \<open>Call-site field\<close>

lemma shortFile_no_slash:
  "(\<And>j. 0 < j \<Longrightarrow> j \<le> i \<Longrightarrow> file ! j \<noteq> CHR ''/'') \<Longrightarrow> shortFile file i = file"
  by (induction i) simp_all

lemma shortFile_last_slash:
  "0 < k \<Longrightarrow> k \<le> i \<Longrightarrow> file ! k = CHR ''/'' \<Longrightarrow>
   (\<And>j. k < j \<Longrightarrow> j \<le> i \<Longrightarrow> file ! j \<noteq> CHR ''/'') \<Longrightarrow>
   shortFile file i = drop (k + 1) file"
proof (induction i)
  case 0
  then show ?case by simp
next
  case (Suc i)
  show ?case
  proof (cases "k = Suc i")
    case True
    then show ?thesis using Suc.prems by simp
  next
    case False
    then have "k \<le> i" using Suc.prems by simp
    moreover have "file ! Suc i \<noteq> CHR ''/''" using Suc.prems False by simp
    ultimately show ?thesis using Suc by simp
  qed
qed

lemma shortFile_base:
  assumes "dir \<noteq> []" "CHR ''/'' \<notin> set base"
  shows "shortFile (dir @ ''/'' @ base) (length (dir @ ''/'' @ base) - 1) = base"
proof -
  let ?file = "dir @ ''/'' @ base"
  have k: "0 < length dir" using assms by simp
  have at: "?file ! length dir = CHR ''/''" by (simp add: nth_append)
  have after: "\<And>j. length dir < j \<Longrightarrow> j \<le> length ?file - 1 \<Longrightarrow> ?file ! j \<noteq> CHR ''/''"
  proof -
    fix j assume j: "length dir < j" "j \<le> length ?file - 1"
    then have "?file ! j = base ! (j - length dir - 1)"
      by (simp add: nth_append nth_Cons')
    moreover have "j - length dir - 1 < length base" using j by simp
    ultimately show "?file ! j \<noteq> CHR ''/''" using assms(2) by (metis nth_mem)
  qed
  have "shortFile ?file (length ?file - 1) = drop (length dir + 1) ?file"
    by (rule shortFile_last_slash [OF k _ at after]) simp_all
  then show ?thesis by simp
qed

lemma shortFile_plain:
  assumes "CHR ''/'' \<notin> set file"
  shows "shortFile file (length file - 1) = file"
proof (rule shortFile_no_slash)
  fix j assume "0 < j" "j \<le> length file - 1"
  then have "j < length file" by simp
  then show "file ! j \<noteq> CHR ''/''" using assms by (metis nth_mem)
qed

text \<open>
  The loop of formatSource stops before index 0, so a file name whose only slash is its
  first character is kept whole.
\<close>

lemma formatSource_root_file: "formatSource plainEnv 3 = ''/main.go:7''"
  by code_simp

text \<open>
  Claim C7, as stated, fails for a non-zero call-site token that resolves to a frame
  without a file name: source location is enabled and the token is non-zero, so the field
  is rendered, but it holds no file name and no line number, only the colour codes and
  the separating space.
\<close>

theorem sourcePart_unresolved_frame:
  "AddSource (opts plainHandler) \<and> PC (NewRecord 1 LevelInfo ''m'' 2) \<noteq> 0 \<and>
   sourcePart plainEnv plainHandler (NewRecord 1 LevelInfo ''m'' 2) = colorCyan @ colorReset @ '' ''"
  by (simp add: sourcePart_def formatSource_def plainHandler_def NewColorHandler_def plainOpts_def
      NewRecord_def plainEnv_def)

text \<open>
  Claim C7, amended. The call-site field is rendered exactly when source location is
  enabled and the call-site token is non-zero. When rendered it is the text of
  formatSource between the cyan and reset codes, followed by a space. That text is
  base:line when the frame's file name is dir/base with a non-empty dir and no slash in
  base, or is base itself without any slash; it is empty when the frame has no file
  name. When the field is not rendered the line goes from the level badge straight to
  the message, with nothing in the field's place.
\<close>

theorem source_field:
  "(sourcePart E h r \<noteq> [] \<longleftrightarrow> AddSource (opts h) \<and> PC r \<noteq> 0) \<and>
   (AddSource (opts h) \<and> PC r \<noteq> 0 \<longrightarrow>
      sourcePart E h r = colorCyan @ formatSource E (PC r) @ colorReset @ '' '') \<and>
   (CallersFrames_Next E pc = \<lparr> File = dir @ ''/'' @ base, Line = line \<rparr> \<and> dir \<noteq> [] \<and>
      CHR ''/'' \<notin> set base \<longrightarrow> formatSource E pc = base @ '':'' @ itoa line) \<and>
   (CallersFrames_Next E pc = \<lparr> File = base, Line = line \<rparr> \<and> base \<noteq> [] \<and>
      CHR ''/'' \<notin> set base \<longrightarrow> formatSource E pc = base @ '':'' @ itoa line) \<and>
   (File (CallersFrames_Next E pc) = [] \<longrightarrow> formatSource E pc = []) \<and>
   (\<not> (AddSource (opts h) \<and> PC r \<noteq> 0) \<longrightarrow>
      handleHead E h r = timestampPart E h r @ levelPart r @ messagePart r @ preformatPart h)"
proof (intro conjI impI)
  show "(sourcePart E h r \<noteq> []) = (AddSource (opts h) \<and> PC r \<noteq> 0)"
    by (simp add: sourcePart_def colorCyan_def)
next
  assume "AddSource (opts h) \<and> PC r \<noteq> 0"
  then show "sourcePart E h r = colorCyan @ formatSource E (PC r) @ colorReset @ '' ''"
    by (simp add: sourcePart_def)
next
  assume a: "CallersFrames_Next E pc = \<lparr> File = dir @ ''/'' @ base, Line = line \<rparr> \<and> dir \<noteq> [] \<and>
      CHR ''/'' \<notin> set base"
  then have "shortFile (dir @ ''/'' @ base) (length (dir @ ''/'' @ base) - 1) = base"
    using shortFile_base by blast
  then show "formatSource E pc = base @ '':'' @ itoa line"
    using a by (simp add: formatSource_def)
next
  assume a: "CallersFrames_Next E pc = \<lparr> File = base, Line = line \<rparr> \<and> base \<noteq> [] \<and>
      CHR ''/'' \<notin> set base"
  then have "shortFile base (length base - 1) = base"
    using shortFile_plain by blast
  then show "formatSource E pc = base @ '':'' @ itoa line"
    using a by (simp add: formatSource_def)
next
  assume "File (CallersFrames_Next E pc) = []"
  then show "formatSource E pc = []" by (simp add: formatSource_def)
next
  assume "\<not> (AddSource (opts h) \<and> PC r \<noteq> 0)"
  then show "handleHead E h r = timestampPart E h r @ levelPart r @ messagePart r @ preformatPart h"
    by (simp add: handleHead_def sourcePart_def)
qed

theorem source_field_witness:
  "AddSource (opts plainHandler) \<and> PC (NewRecord 1 LevelInfo ''m'' 1) \<noteq> 0 \<and>
   ''/src/app'' \<noteq> [] \<and> CHR ''/'' \<notin> set ''main.go'' \<and>
   CallersFrames_Next plainEnv 1 = \<lparr> File = ''/src/app'' @ ''/'' @ ''main.go'', Line = 25 \<rparr> \<and>
   sourcePart plainEnv plainHandler (NewRecord 1 LevelInfo ''m'' 1)
     = colorCyan @ ''main.go:25'' @ colorReset @ '' '' \<and>
   \<not> (AddSource (opts plainHandler) \<and> PC (NewRecord 1 LevelInfo ''m'' 0) \<noteq> 0) \<and>
   handleHead plainEnv plainHandler (NewRecord 1 LevelInfo ''m'' 0)
     = timestampPart plainEnv plainHandler (NewRecord 1 LevelInfo ''m'' 0)
       @ levelPart (NewRecord 1 LevelInfo ''m'' 0) @ messagePart (NewRecord 1 LevelInfo ''m'' 0)
       @ preformatPart plainHandler"
proof -
  let ?r1 = "NewRecord 1 LevelInfo ''m'' 1" and ?r0 = "NewRecord 1 LevelInfo ''m'' 0"
  have on: "AddSource (opts plainHandler)"
    by (simp add: plainHandler_def NewColorHandler_def plainOpts_def)
  have pc1: "PC ?r1 \<noteq> 0" and pc0: "PC ?r0 = 0"
    by (simp_all add: NewRecord_def)
  have fr: "CallersFrames_Next plainEnv 1 = \<lparr> File = ''/src/app'' @ ''/'' @ ''main.go'', Line = 25 \<rparr>"
    by (simp add: plainEnv_def)
  have dir: "''/src/app'' \<noteq> []" and base: "CHR ''/'' \<notin> set ''main.go''"
    by simp_all
  have num: "itoa 25 = ''25''"
    by code_simp
  note t1 = source_field [of plainEnv plainHandler ?r1 1 "''/src/app''" "''main.go''" 25]
  note t0 = source_field [of plainEnv plainHandler ?r0 1 "''/src/app''" "''main.go''" 25]
  have src: "formatSource plainEnv 1 = ''main.go:25''"
    using t1 fr dir base num by simp
  have part: "sourcePart plainEnv plainHandler ?r1 = colorCyan @ ''main.go:25'' @ colorReset @ '' ''"
    using t1 on pc1 src by (simp add: NewRecord_def)
  have head: "handleHead plainEnv plainHandler ?r0
     = timestampPart plainEnv plainHandler ?r0 @ levelPart ?r0 @ messagePart ?r0
       @ preformatPart plainHandler"
    using t0 pc0 by simp
  show ?thesis
    using on pc1 pc0 fr part head by simp
qed

section \<open>Enough fuel: the calls return\<close>

lemma fold_max_ge: "(m::nat) \<le> fold max xs m"
proof (induction xs arbitrary: m)
  case Nil
  then show ?case by simp
next
  case (Cons y ys)
  have "m \<le> max y m" by simp
  also have "max y m \<le> fold max ys (max y m)" by (rule Cons.IH)
  finally show ?case by simp
qed

lemma fold_max_mem: "(x::nat) \<in> set xs \<Longrightarrow> x \<le> fold max xs m"
proof (induction xs arbitrary: m)
  case Nil
  then show ?case by simp
next
  case (Cons y ys)
  show ?case
  proof (cases "x = y")
    case True
    have "max y m \<le> fold max ys (max y m)" by (rule fold_max_ge)
    then show ?thesis using True by simp
  next
    case False
    then show ?thesis using Cons by simp
  qed
qed

lemma depth_le_maxDepth: "a \<in> set as \<Longrightarrow> depth a \<le> maxDepth as"
  unfolding maxDepth_def by (rule fold_max_mem) simp

lemma depth_child:
  assumes "Value a = GroupValue gs" "c \<in> set gs"
  shows "depth c < depth a"
proof -
  have "depth c \<le> fold max (map depth gs) 0" using assms(2) by (intro fold_max_mem) simp
  moreover have "depth a = Suc (fold max (map depth gs) 0)" using assms(1) by (cases a) simp
  ultimately show ?thesis by simp
qed

lemma appendGroupAttrs_returns:
  "(\<And>b a. a \<in> set gas \<Longrightarrow> \<exists>b'. f b a gs = Some b') \<Longrightarrow>
   \<exists>b'. appendGroupAttrs f buf gas i gs = Some b'"
proof (induction gas arbitrary: buf i)
  case Nil
  then show ?case by simp
next
  case (Cons ga gas)
  obtain b1 where b1: "f (if i > 0 \<or> length buf > 0 then buf @ '' '' else buf) ga gs = Some b1"
    using Cons.prems [of ga] by auto
  have "\<exists>b'. appendGroupAttrs f b1 gas (i + 1) gs = Some b'"
    using Cons.IH Cons.prems by simp
  then show ?case using b1 by (simp add: Let_def)
qed

lemma appendAttr_returns:
  "hook_bounded ho \<Longrightarrow> depth a < n \<Longrightarrow> \<exists>b'. appendAttr n E ho buf a gs = Some b'"
proof (induction n arbitrary: a buf gs)
  case 0
  then show ?case by simp
next
  case (Suc n)
  define a' where "a' = applyReplaceAttr ho gs a"
  have d: "depth a' \<le> depth a"
    using Suc.prems(1) by (auto simp: a'_def applyReplaceAttr_def hook_bounded_def split: option.splits)
  have grp: "\<exists>b'. appendGroupAttrs (appendAttr n E ho) buf (Group (Value a')) 0 (gs @ [Key a']) = Some b'"
    if k: "Value_Kind (Value a') = KindGroup"
  proof (rule appendGroupAttrs_returns)
    fix b c assume c: "c \<in> set (Group (Value a'))"
    have "Value a' = GroupValue (Group (Value a'))" using k by (cases "Value a'") simp_all
    then have "depth c < depth a'" using c depth_child by blast
    then have "depth c < n" using d Suc.prems(2) by simp
    then show "\<exists>b'. appendAttr n E ho b c (gs @ [Key a']) = Some b'"
      using Suc.IH Suc.prems(1) by blast
  qed
  show ?case
    using grp by (simp add: Let_def a'_def [symmetric])
qed

lemma handleAttrs_returns:
  "(\<And>b a. a \<in> set as \<Longrightarrow> \<exists>b'. f b a gs = Some b') \<Longrightarrow>
   \<exists>b'. handleAttrs f buf as gs = Some b'"
proof (induction as arbitrary: buf)
  case Nil
  then show ?case by simp
next
  case (Cons a as)
  obtain b1 where b1: "f (buf @ '' '') a gs = Some b1"
    using Cons.prems [of a] by auto
  have "\<exists>b'. handleAttrs f b1 as gs = Some b'"
    using Cons.IH Cons.prems by simp
  then show ?case using b1 by simp
qed

lemma Handle_returns:
  assumes "hook_bounded (opts h)" "maxDepth (rattrs r) < n"
  shows "\<exists>body. Handle n E h r tr
           = Some (tr @ [(output_ref h, body @ [newline])],
                   Write E (output_ref h) tr (body @ [newline]))"
proof -
  have "\<exists>b'. handleAttrs (appendAttr n E (opts h)) (handleHead E h r) (rattrs r) (groups h) = Some b'"
  proof (rule handleAttrs_returns)
    fix b a assume "a \<in> set (rattrs r)"
    then have "depth a < n" using depth_le_maxDepth assms(2) by fastforce
    then show "\<exists>b'. appendAttr n E (opts h) b a (groups h) = Some b'"
      using appendAttr_returns assms(1) by blast
  qed
  then show ?thesis by (auto simp: Handle_def Let_def)
qed

lemma Handle_result:
  "Handle n E h r tr = Some (tr', err) \<Longrightarrow>
   \<exists>body. tr' = tr @ [(output_ref h, body @ [newline])] \<and> err = Write E (output_ref h) tr (body @ [newline])"
  by (auto simp: Handle_def Let_def split: option.splits)

text \<open>Outside production, the base handler of Init is the ColorHandler with Init's options.\<close>

lemma Init_color:
  "cfg_env cfg \<noteq> Production \<Longrightarrow>
   Init E freshMu cfg
     = NewContextHandler (ColorH (NewColorHandler freshMu (output_cfg cfg) (Init_handlerOpts E cfg)))
         (contextKeys cfg)"
  by (cases "cfg_env cfg") (simp_all add: Init_def)

lemma hook_bounded_Init: "hook_bounded (Init_handlerOpts E cfg)"
  by (auto simp: hook_bounded_def Init_handlerOpts_def Init_ReplaceAttr_def split: Value.splits)

lemma maxDepth_less: "maxDepth as < n \<Longrightarrow> a \<in> set as \<Longrightarrow> depth a < n"
  using depth_le_maxDepth [of a as] by simp

lemma maxDepth_lessI: "0 < n \<Longrightarrow> (\<And>a. a \<in> set as \<Longrightarrow> depth a < n) \<Longrightarrow> maxDepth as < n"
  unfolding maxDepth_def
proof (induction as rule: rev_induct)
  case Nil
  then show ?case by simp
next
  case (snoc x xs)
  then show ?case by simp
qed

lemma ContextHandler_Handle_record:
  "\<exists>r'. ContextHandler_Handle inner h ctx r = inner (handler h) ctx r' \<and>
        set (rattrs r') \<subseteq> set (contextAttrs ctx (keys h) []) \<union> set (rattrs r) \<and>
        Level r' = Level r \<and> Message r' = Message r \<and> Time r' = Time r \<and> PC r' = PC r"
proof (cases "contextAttrs ctx (keys h) [] = []")
  case True
  then show ?thesis by (auto simp: ContextHandler_Handle_def)
next
  case False
  then show ?thesis
    unfolding ContextHandler_Handle_def Let_def fold_AddAttrs
    by (auto simp: NewRecord_def AddAttrs_def)
qed

lemma logWithCaller_returns:
  assumes hb: "hook_bounded (opts (handler l))"
    and fuel: "maxDepth (contextAttrs ctx (keys l) [] @ args) < n"
  shows "\<exists>body. logWithCaller n E ctx l lvl msg args tr =
           (if Enabled (handler l) lvl
            then Some (tr @ [(output_ref (handler l), body @ [newline])])
            else Some tr)"
proof -
  let ?r = "Add (NewRecord (Now E) lvl msg (Callers E callerSkip)) args"
  obtain r' where r': "ContextHandler_Handle (\<lambda>h ctx r. Handle n E h r tr) l ctx ?r
        = Handle n E (handler l) r' tr"
    and sub: "set (rattrs r') \<subseteq> set (contextAttrs ctx (keys l) []) \<union> set (rattrs ?r)"
    using ContextHandler_Handle_record [of "\<lambda>h ctx r. Handle n E h r tr" l ctx ?r] by blast
  have "set (rattrs ?r) \<subseteq> set args" by (auto simp: Add_def NewRecord_def)
  then have "\<And>a. a \<in> set (rattrs r') \<Longrightarrow> depth a < n"
    using sub maxDepth_less [OF fuel] by auto
  moreover have "0 < n" using fuel by simp
  ultimately have "maxDepth (rattrs r') < n" by (rule maxDepth_lessI [rotated])
  then obtain body where "Handle n E (handler l) r' tr
           = Some (tr @ [(output_ref (handler l), body @ [newline])],
                   Write E (output_ref (handler l)) tr (body @ [newline]))"
    using Handle_returns [OF hb] by blast
  then show ?thesis
    using r' by (auto simp: logWithCaller_def ContextHandler_Enabled_def Let_def)
qed

section \<open>Quoting of string values\<close>

subsection \<open>Hexadecimal digits\<close>

lemma byte_less [simp]: "byte c < 256"
  by (simp add: byte_def)

lemma byte_char_of: "n < 256 \<Longrightarrow> byte (char_of n) = n"
  by (simp add: byte_def)

lemma char_of_byte [simp]: "char_of (byte c) = c"
  by (simp add: byte_def)

lemma lowerhex_table:
  "list_all (\<lambda>k. unhex (lowerhex k) = Some k \<and> 0x20 \<le> byte (lowerhex k) \<and> byte (lowerhex k) < 0x7F
      \<and> lowerhex k \<noteq> dquote \<and> lowerhex k \<noteq> bslash) [0..<16]"
  by (simp add: upt_rec unhex_def lowerhex_def byte_def dquote_def bslash_def)

lemma unhex_lowerhex: "unhex (lowerhex n) = Some (n mod 16)"
proof -
  have "n mod 16 \<in> set [0..<16]" by simp
  then have "unhex (lowerhex (n mod 16)) = Some (n mod 16)"
    using lowerhex_table unfolding list_all_iff by blast
  then show ?thesis by (simp add: lowerhex_def)
qed

lemma lowerhex_plain:
  "0x20 \<le> byte (lowerhex n) \<and> byte (lowerhex n) < 0x7F \<and> lowerhex n \<noteq> dquote \<and> lowerhex n \<noteq> bslash"
proof -
  have "n mod 16 \<in> set [0..<16]" by simp
  then have "0x20 \<le> byte (lowerhex (n mod 16)) \<and> byte (lowerhex (n mod 16)) < 0x7F
      \<and> lowerhex (n mod 16) \<noteq> dquote \<and> lowerhex (n mod 16) \<noteq> bslash"
    using lowerhex_table unfolding list_all_iff by blast
  then show ?thesis by (simp add: lowerhex_def)
qed

lemma hexDigits_numeral:
  "hexDigits (numeral k) (c # cs) v =
     (case unhex c of None \<Rightarrow> None | Some x \<Rightarrow> hexDigits (pred_numeral k) cs (v * 16 + x))"
  by (simp add: numeral_eq_Suc)

lemma hexDigits_one:
  "hexDigits 1 (c # cs) v = (case unhex c of None \<Rightarrow> None | Some x \<Rightarrow> Some (v * 16 + x))"
  by (cases "unhex c") simp_all

lemma hexDigits2:
  "hexDigits 2 (lowerhex a # lowerhex b # rest) 0 = Some ((a mod 16) * 16 + b mod 16)"
  by (simp add: hexDigits_numeral unhex_lowerhex)

lemma hexDigits4:
  "hexDigits 4 (lowerhex a # lowerhex b # lowerhex c # lowerhex d # rest) 0
     = Some ((((a mod 16) * 16 + b mod 16) * 16 + c mod 16) * 16 + d mod 16)"
  by (simp add: hexDigits_numeral unhex_lowerhex)

lemma hexDigits8:
  "hexDigits 8 (lowerhex a # lowerhex b # lowerhex c # lowerhex d # lowerhex e # lowerhex f
                 # lowerhex g # lowerhex h # rest) 0
     = Some ((((((((a mod 16) * 16 + b mod 16) * 16 + c mod 16) * 16 + d mod 16) * 16 + e mod 16) * 16
              + f mod 16) * 16 + g mod 16) * 16 + h mod 16)"
  by (simp add: hexDigits_numeral unhex_lowerhex)

lemma hex_step: "(r::nat) mod (16 * k) = (r div 16) mod k * 16 + r mod 16"
  by (simp add: mod_mult2_eq)

lemma div16_div: "(r::nat) div k div 16 = r div (k * 16)"
  by (simp add: div_mult2_eq)

lemma hex2_value: "((r div 16) mod 16) * 16 + r mod 16 = (r::nat) mod 256"
  using hex_step [of r 16] by simp

lemma hex4_value:
  "((((r div 4096) mod 16) * 16 + (r div 256) mod 16) * 16 + (r div 16) mod 16) * 16 + r mod 16
     = (r::nat) mod 65536"
proof -
  have a: "r mod 65536 = (r div 16) mod 4096 * 16 + r mod 16"
    using hex_step [of r 4096] by simp
  have b: "(r div 16) mod 4096 = (r div 256) mod 256 * 16 + (r div 16) mod 16"
    using hex_step [of "r div 16" 256] div16_div [of r 16] by simp
  have c: "(r div 256) mod 256 = (r div 4096) mod 16 * 16 + (r div 256) mod 16"
    using hex_step [of "r div 256" 16] div16_div [of r 256] by simp
  show ?thesis unfolding a b c by simp
qed

lemma hex8_value:
  "((((((((r div 268435456) mod 16) * 16 + (r div 16777216) mod 16) * 16 + (r div 1048576) mod 16) * 16
        + (r div 65536) mod 16) * 16 + (r div 4096) mod 16) * 16 + (r div 256) mod 16) * 16
      + (r div 16) mod 16) * 16 + r mod 16 = (r::nat) mod 4294967296"
proof -
  have a: "r mod 4294967296 = (r div 16) mod 268435456 * 16 + r mod 16"
    using hex_step [of r 268435456] by simp
  have b: "(r div 16) mod 268435456 = (r div 256) mod 16777216 * 16 + (r div 16) mod 16"
    using hex_step [of "r div 16" 16777216] div16_div [of r 16] by simp
  have c: "(r div 256) mod 16777216 = (r div 4096) mod 1048576 * 16 + (r div 256) mod 16"
    using hex_step [of "r div 256" 1048576] div16_div [of r 256] by simp
  have d: "(r div 4096) mod 1048576 = (r div 65536) mod 65536 * 16 + (r div 4096) mod 16"
    using hex_step [of "r div 4096" 65536] div16_div [of r 4096] by simp
  have e: "(r div 65536) mod 65536 = (r div 1048576) mod 4096 * 16 + (r div 65536) mod 16"
    using hex_step [of "r div 65536" 4096] div16_div [of r 65536] by simp
  have f: "(r div 1048576) mod 4096 = (r div 16777216) mod 256 * 16 + (r div 1048576) mod 16"
    using hex_step [of "r div 1048576" 256] div16_div [of r 1048576] by simp
  have g: "(r div 16777216) mod 256 = (r div 268435456) mod 16 * 16 + (r div 16777216) mod 16"
    using hex_step [of "r div 16777216" 16] div16_div [of r 16777216] by simp
  show ?thesis unfolding a b c d e f g by simp
qed

lemma nth_simps3: "(a # b # xs) ! 1 = b" "(a # b # c # xs) ! 2 = c" "(a # b # c # d # xs) ! 3 = d"
  by simp_all

lemma decode_unfold:
  assumes "first (byte c) = x" "x < 0xF0"
  shows "DecodeRuneInString (c # rest) =
     (if Suc (length rest) < x mod 8 then (RuneError, 1)
      else if byte ((c # rest) ! 1) < fst (acceptRanges (x div 16))
              \<or> snd (acceptRanges (x div 16)) < byte ((c # rest) ! 1) then (RuneError, 1)
      else if x mod 8 \<le> 2 then ((byte c mod 32) * 64 + byte ((c # rest) ! 1) mod 64, 2)
      else if byte ((c # rest) ! 2) < 0x80 \<or> 0xBF < byte ((c # rest) ! 2) then (RuneError, 1)
      else if x mod 8 \<le> 3 then
        ((byte c mod 16) * 4096 + (byte ((c # rest) ! 1) mod 64) * 64 + byte ((c # rest) ! 2) mod 64, 3)
      else if byte ((c # rest) ! 3) < 0x80 \<or> 0xBF < byte ((c # rest) ! 3) then (RuneError, 1)
      else ((byte c mod 8) * 262144 + (byte ((c # rest) ! 1) mod 64) * 4096
            + (byte ((c # rest) ! 2) mod 64) * 64 + byte ((c # rest) ! 3) mod 64, 4))"
  using assms unfolding DecodeRuneInString_def Let_def by simp

lemma first_2: "0xC2 \<le> b \<Longrightarrow> b < 0xE0 \<Longrightarrow> first b = 0x02"
  by (simp add: first_def)

lemma decode2:
  assumes "0xC2 \<le> byte c" "byte c < 0xE0"
  shows "DecodeRuneInString (c # rest) =
     (case rest of
        [] \<Rightarrow> (RuneError, 1)
      | c1 # _ \<Rightarrow>
          if byte c1 < 0x80 \<or> 0xBF < byte c1 then (RuneError, 1)
          else ((byte c mod 32) * 64 + byte c1 mod 64, 2))"
proof -
  have f: "first (byte c) = 0x02" using assms by (rule first_2)
  show ?thesis
    unfolding decode_unfold [OF f, simplified]
    by (cases rest) (simp_all add: acceptRanges_def)
qed

lemma decode_invalid:
  assumes "0x80 \<le> byte c" "byte c < 0xC2 \<or> 0xF5 \<le> byte c"
  shows "DecodeRuneInString (c # rest) = (RuneError, 1)"
proof -
  have "first (byte c) = 0xF1" using assms by (auto simp: first_def)
  then show ?thesis unfolding DecodeRuneInString_def Let_def by simp
qed

lemma first_3:
  "0xE0 \<le> b \<Longrightarrow> b < 0xF0 \<Longrightarrow>
   first b = (if b = 0xE0 then 0x13 else if b = 0xED then 0x23 else 0x03)"
  by (simp add: first_def)

lemma first_4:
  "0xF0 \<le> b \<Longrightarrow> b < 0xF5 \<Longrightarrow>
   first b = (if b = 0xF0 then 0x34 else if b = 0xF4 then 0x44 else 0x04)"
  by (simp add: first_def)

lemma decode3:
  assumes "0xE0 \<le> byte c" "byte c < 0xF0"
  shows "DecodeRuneInString (c # rest) =
     (case rest of
        c1 # c2 # _ \<Rightarrow>
          if byte c1 < lo3 (byte c) \<or> hi3 (byte c) < byte c1 then (RuneError, 1)
          else if byte c2 < 0x80 \<or> 0xBF < byte c2 then (RuneError, 1)
          else ((byte c mod 16) * 4096 + (byte c1 mod 64) * 64 + byte c2 mod 64, 3)
      | _ \<Rightarrow> (RuneError, 1))"
proof -
  consider (a) "byte c = 0xE0" | (b) "byte c = 0xED" | (c) "byte c \<noteq> 0xE0" "byte c \<noteq> 0xED" by blast
  then show ?thesis
  proof cases
    case a
    then have f: "first (byte c) = 0x13" using first_3 [OF assms] by simp
    show ?thesis
      unfolding decode_unfold [OF f, simplified]
      by (cases rest; cases "tl rest") (simp_all add: acceptRanges_def lo3_def hi3_def a)
  next
    case b
    then have f: "first (byte c) = 0x23" using first_3 [OF assms] by simp
    show ?thesis
      unfolding decode_unfold [OF f, simplified]
      by (cases rest; cases "tl rest") (simp_all add: acceptRanges_def lo3_def hi3_def b)
  next
    case c
    then have f: "first (byte c) = 0x03" using first_3 [OF assms] by simp
    show ?thesis
      unfolding decode_unfold [OF f, simplified]
      by (cases rest; cases "tl rest") (simp_all add: acceptRanges_def lo3_def hi3_def c)
  qed
qed

lemma decode4:
  assumes "0xF0 \<le> byte c" "byte c < 0xF5"
  shows "DecodeRuneInString (c # rest) =
     (case rest of
        c1 # c2 # c3 # _ \<Rightarrow>
          if byte c1 < lo4 (byte c) \<or> hi4 (byte c) < byte c1 then (RuneError, 1)
          else if byte c2 < 0x80 \<or> 0xBF < byte c2 then (RuneError, 1)
          else if byte c3 < 0x80 \<or> 0xBF < byte c3 then (RuneError, 1)
          else ((byte c mod 8) * 262144 + (byte c1 mod 64) * 4096 + (byte c2 mod 64) * 64
                + byte c3 mod 64, 4)
      | _ \<Rightarrow> (RuneError, 1))"
proof -
  consider (a) "byte c = 0xF0" | (b) "byte c = 0xF4" | (c) "byte c \<noteq> 0xF0" "byte c \<noteq> 0xF4" by blast
  then show ?thesis
  proof cases
    case a
    then have f: "first (byte c) = 0x34" using first_4 [OF assms] by simp
    show ?thesis
      unfolding decode_unfold [OF f, simplified]
      by (cases rest; cases "tl rest"; cases "tl (tl rest)")
        (simp_all add: acceptRanges_def lo4_def hi4_def a)
  next
    case b
    then have f: "first (byte c) = 0x44" using first_4 [OF assms] by simp
    show ?thesis
      unfolding decode_unfold [OF f, simplified]
      by (cases rest; cases "tl rest"; cases "tl (tl rest)")
        (simp_all add: acceptRanges_def lo4_def hi4_def b)
  next
    case c
    then have f: "first (byte c) = 0x04" using first_4 [OF assms] by simp
    show ?thesis
      unfolding decode_unfold [OF f, simplified]
      by (cases rest; cases "tl rest"; cases "tl (tl rest)")
        (simp_all add: acceptRanges_def lo4_def hi4_def c)
  qed
qed

lemma pack64: "b < 64 \<Longrightarrow> (a * 64 + b) div 64 = (a::nat)" "b < 64 \<Longrightarrow> (a * 64 + b) mod 64 = (b::nat)"
  by simp_all

lemma mod_off: "x < k \<Longrightarrow> (q * k + x) mod k = (x::nat)"
  by simp

lemma roundtrip2:
  assumes c: "0xC2 \<le> byte c" "byte c < 0xE0" and c1: "0x80 \<le> byte c1" "byte c1 \<le> 0xBF"
  defines "r \<equiv> (byte c mod 32) * 64 + byte c1 mod 64"
  shows "0x80 \<le> r" "r \<le> 0x7FF" "AppendRune p r = p @ [c, c1]"
proof -
  define x where "x = byte c - 0xC0"
  define y where "y = byte c1 - 0x80"
  have bx: "byte c = 0xC0 + x" and x: "2 \<le> x" "x < 32" using c by (simp_all add: x_def)
  have b1: "byte c1 = 0x80 + y" and y: "y < 64" using c1 by (simp_all add: y_def)
  have mx: "byte c mod 32 = x" unfolding bx using mod_off [of x 32 6] x by simp
  have my: "byte c1 mod 64 = y" unfolding b1 using mod_off [of y 64 2] y by simp
  have r: "r = x * 64 + y" by (simp add: r_def mx my)
  show lo: "0x80 \<le> r" using x r by simp
  show hi: "r \<le> 0x7FF" using x y r by simp
  have d: "r div 64 = x" "r mod 64 = y" unfolding r using y by (simp_all add: pack64)
  have "char_of (0xC0 + r div 64) = c" "char_of (0x80 + r mod 64) = c1"
    unfolding d bx [symmetric] b1 [symmetric] by simp_all
  then show "AppendRune p r = p @ [c, c1]"
    using lo hi by (simp add: AppendRune_def)
qed

lemma roundtrip3:
  assumes c: "0xE0 \<le> byte c" "byte c < 0xF0"
    and c1: "lo3 (byte c) \<le> byte c1" "byte c1 \<le> hi3 (byte c)"
    and c2: "0x80 \<le> byte c2" "byte c2 \<le> 0xBF"
  defines "r \<equiv> (byte c mod 16) * 4096 + (byte c1 mod 64) * 64 + byte c2 mod 64"
  shows "0x800 \<le> r" "r \<le> 0xFFFF" "ValidRune r" "AppendRune p r = p @ [c, c1, c2]"
proof -
  define x where "x = byte c - 0xE0"
  define y where "y = byte c1 - 0x80"
  define z where "z = byte c2 - 0x80"
  have c1': "0x80 \<le> byte c1" "byte c1 \<le> 0xBF"
    using c1 by (auto simp: lo3_def hi3_def split: if_splits)
  have bx: "byte c = 0xE0 + x" and x: "x < 16" using c by (simp_all add: x_def)
  have b1: "byte c1 = 0x80 + y" and y: "y < 64" using c1' by (simp_all add: y_def)
  have b2: "byte c2 = 0x80 + z" and z: "z < 64" using c2 by (simp_all add: z_def)
  have x0: "x = 0 \<longrightarrow> 32 \<le> y" using c1(1) by (auto simp: lo3_def bx b1)
  have x13: "x = 13 \<longrightarrow> y < 32" using c1(2) by (auto simp: hi3_def bx b1)
  have mx: "byte c mod 16 = x" unfolding bx using mod_off [of x 16 14] x by simp
  have my: "byte c1 mod 64 = y" unfolding b1 using mod_off [of y 64 2] y by simp
  have mz: "byte c2 mod 64 = z" unfolding b2 using mod_off [of z 64 2] z by simp
  have r: "r = (x * 64 + y) * 64 + z" by (simp add: r_def mx my mz)
  show lo: "0x800 \<le> r" using x0 r by (cases "x = 0") simp_all
  show hi: "r \<le> 0xFFFF" using x y z r by simp
  have ns: "r < 0xD800 \<or> 0xDFFF < r"
  proof -
    consider "x < 13" | "x = 13" | "13 < x" by linarith
    then show ?thesis
    proof cases
      case 1 then show ?thesis using y z r by simp
    next
      case 2 then show ?thesis using x13 z r by simp
    next
      case 3 then show ?thesis using r by simp
    qed
  qed
  show "ValidRune r" using ns hi by (auto simp: ValidRune_def MaxRune_def)
  have d0: "r mod 64 = z" unfolding r by (rule pack64(2) [OF z])
  have d1: "r div 64 = x * 64 + y" unfolding r by (rule pack64(1) [OF z])
  have d2: "(r div 64) mod 64 = y" unfolding d1 by (rule pack64(2) [OF y])
  have "r div 4096 = r div 64 div 64" using div_mult2_eq [of r 64 64] by simp
  then have d3: "r div 4096 = x" unfolding d1 by (simp only: pack64(1) [OF y])
  have "char_of (0xE0 + r div 4096) = c" "char_of (0x80 + (r div 64) mod 64) = c1"
    "char_of (0x80 + r mod 64) = c2"
    unfolding d0 d2 d3 bx [symmetric] b1 [symmetric] b2 [symmetric] by simp_all
  moreover have sur: "(r > MaxRune \<or> (0xD800 \<le> r \<and> r \<le> 0xDFFF)) = False"
    using ns hi by (auto simp: MaxRune_def)
  ultimately show "AppendRune p r = p @ [c, c1, c2]"
    unfolding AppendRune_def sur using lo hi by simp
qed

lemma roundtrip4:
  assumes c: "0xF0 \<le> byte c" "byte c < 0xF5"
    and c1: "lo4 (byte c) \<le> byte c1" "byte c1 \<le> hi4 (byte c)"
    and c2: "0x80 \<le> byte c2" "byte c2 \<le> 0xBF"
    and c3: "0x80 \<le> byte c3" "byte c3 \<le> 0xBF"
  defines "r \<equiv> (byte c mod 8) * 262144 + (byte c1 mod 64) * 4096 + (byte c2 mod 64) * 64
                  + byte c3 mod 64"
  shows "0x10000 \<le> r" "r \<le> 0x10FFFF" "ValidRune r" "AppendRune p r = p @ [c, c1, c2, c3]"
proof -
  define x where "x = byte c - 0xF0"
  define y where "y = byte c1 - 0x80"
  define z where "z = byte c2 - 0x80"
  define w where "w = byte c3 - 0x80"
  have c1': "0x80 \<le> byte c1" "byte c1 \<le> 0xBF"
    using c1 by (auto simp: lo4_def hi4_def split: if_splits)
  have bx: "byte c = 0xF0 + x" and x: "x < 5" using c by (simp_all add: x_def)
  have b1: "byte c1 = 0x80 + y" and y: "y < 64" using c1' by (simp_all add: y_def)
  have b2: "byte c2 = 0x80 + z" and z: "z < 64" using c2 by (simp_all add: z_def)
  have b3: "byte c3 = 0x80 + w" and w: "w < 64" using c3 by (simp_all add: w_def)
  have x0: "x = 0 \<longrightarrow> 16 \<le> y" using c1(1) by (auto simp: lo4_def bx b1)
  have x4: "x = 4 \<longrightarrow> y < 16" using c1(2) by (auto simp: hi4_def bx b1)
  have "byte c mod 8 = (30 * 8 + x) mod 8" by (simp add: bx)
  have mx: "byte c mod 8 = x" unfolding bx using mod_off [of x 8 30] x by simp
  have my: "byte c1 mod 64 = y" unfolding b1 using mod_off [of y 64 2] y by simp
  have mz: "byte c2 mod 64 = z" unfolding b2 using mod_off [of z 64 2] z by simp
  have mw: "byte c3 mod 64 = w" unfolding b3 using mod_off [of w 64 2] w by simp
  have r: "r = ((x * 64 + y) * 64 + z) * 64 + w" by (simp add: r_def mx my mz mw)
  show lo: "0x10000 \<le> r" using x0 r by (cases "x = 0") simp_all
  show hi: "r \<le> 0x10FFFF"
  proof (cases "x = 4")
    case True then show ?thesis using x4 z w r by simp
  next
    case False then have "x \<le> 3" using x by simp
    then show ?thesis using y z w r by simp
  qed
  show "ValidRune r" using lo hi by (simp add: ValidRune_def MaxRune_def)
  have d0: "r mod 64 = w" unfolding r by (rule pack64(2) [OF w])
  have d1: "r div 64 = (x * 64 + y) * 64 + z" unfolding r by (rule pack64(1) [OF w])
  have d2: "(r div 64) mod 64 = z" unfolding d1 by (rule pack64(2) [OF z])
  have "r div 4096 = r div 64 div 64" using div_mult2_eq [of r 64 64] by simp
  then have d3: "r div 4096 = x * 64 + y" unfolding d1 by (simp only: pack64(1) [OF z])
  have d4: "(r div 4096) mod 64 = y" unfolding d3 by (rule pack64(2) [OF y])
  have "r div 262144 = r div 4096 div 64" using div_mult2_eq [of r 4096 64] by simp
  then have d5: "r div 262144 = x" unfolding d3 by (simp only: pack64(1) [OF y])
  have "char_of (0xF0 + r div 262144) = c" "char_of (0x80 + (r div 4096) mod 64) = c1"
    "char_of (0x80 + (r div 64) mod 64) = c2" "char_of (0x80 + r mod 64) = c3"
    unfolding d0 d2 d4 d5 bx [symmetric] b1 [symmetric] b2 [symmetric] b3 [symmetric] by simp_all
  moreover have sur: "(r > MaxRune \<or> (0xD800 \<le> r \<and> r \<le> 0xDFFF)) = False"
    using lo hi by (auto simp: MaxRune_def)
  ultimately show "AppendRune p r = p @ [c, c1, c2, c3]"
    unfolding AppendRune_def sur using lo hi by simp
qed

lemma unquoteLoop_step:
  "c \<noteq> dquote \<Longrightarrow> c \<noteq> newline \<Longrightarrow> UnquoteChar c rest = Some (v, mb, n) \<Longrightarrow>
   unquoteLoop (c # rest) buf = unquoteLoop (drop (n - 1) rest) (unquoteAppend buf (v, mb, n))"
  by simp

lemma byte_eq_iff: "byte c = n \<longleftrightarrow> (n < 256 \<and> c = char_of n)"
  by (auto simp: byte_def)

lemma bslash_facts:
  "bslash \<noteq> dquote" "bslash \<noteq> newline" "byte bslash = 0x5C" "byte dquote = 0x22" "byte newline = 0x0A"
  by (simp_all add: bslash_def dquote_def newline_def byte_def)

lemma UnquoteChar_bslash: "UnquoteChar bslash (c2 # s2) = unquoteEscape c2 s2"
  by (simp add: UnquoteChar_def bslash_facts RuneSelf_def)

text \<open>A two-character escape read back.\<close>

lemma unquote_simple_escape:
  assumes "unquoteEscape e tail = Some (v, False, 2)"
  shows "unquoteLoop (bslash # e # tail) buf = unquoteLoop tail (buf @ [char_of v])"
  using unquoteLoop_step [of bslash "e # tail" v False 2 buf] assms
  by (simp add: bslash_facts UnquoteChar_bslash unquoteAppend_def)

lemma unquote_x_escape:
  assumes "b < 256"
  shows "unquoteLoop (bslash # CHR ''x'' # lowerhex (b div 16) # lowerhex (b mod 16) # tail) buf
           = unquoteLoop tail (buf @ [char_of b])"
proof -
  have v: "((b div 16) mod 16) * 16 + b mod 16 = b"
    using hex2_value [of b] assms by simp
  have "hexDigits 2 (lowerhex (b div 16) # lowerhex (b mod 16) # tail) 0
          = Some (((b div 16) mod 16) * 16 + (b mod 16) mod 16)"
    by (rule hexDigits2)
  then have h: "hexDigits 2 (lowerhex (b div 16) # lowerhex (b mod 16) # tail) 0 = Some b"
    using v by simp
  have "unquoteEscape (CHR ''x'') (lowerhex (b div 16) # lowerhex (b mod 16) # tail) = Some (b, False, 4)"
    by (simp add: unquoteEscape_def h)
  then show ?thesis
    using unquoteLoop_step [of bslash "CHR ''x'' # lowerhex (b div 16) # lowerhex (b mod 16) # tail"
        b False 4 buf]
    by (simp add: bslash_facts UnquoteChar_bslash unquoteAppend_def)
qed

lemma unquote_u_escape:
  assumes "r < 0x10000" "ValidRune r" "0x80 \<le> r"
  shows "unquoteLoop (bslash # CHR ''u'' # lowerhex (r div 4096) # lowerhex (r div 256)
                      # lowerhex (r div 16) # lowerhex r # tail) buf
           = unquoteLoop tail (AppendRune buf r)"
proof -
  have v: "((((r div 4096) mod 16) * 16 + (r div 256) mod 16) * 16 + (r div 16) mod 16) * 16 + r mod 16 = r"
    using hex4_value [of r] assms by simp
  have h: "hexDigits 4 (lowerhex (r div 4096) # lowerhex (r div 256)
                      # lowerhex (r div 16) # lowerhex r # tail) 0 = Some r"
    by (simp only: hexDigits4 v)
  have "unquoteEscape (CHR ''u'') (lowerhex (r div 4096) # lowerhex (r div 256)
                      # lowerhex (r div 16) # lowerhex r # tail) = Some (r, True, 6)"
    using assms(2) by (simp add: unquoteEscape_def h)
  then show ?thesis
    using unquoteLoop_step [of bslash "CHR ''u'' # lowerhex (r div 4096) # lowerhex (r div 256)
                      # lowerhex (r div 16) # lowerhex r # tail" r True 6 buf] assms(3)
    by (simp add: bslash_facts UnquoteChar_bslash unquoteAppend_def RuneSelf_def)
qed

lemma unquote_U_escape:
  assumes "r \<le> 0x10FFFF" "ValidRune r" "0x80 \<le> r"
  shows "unquoteLoop (bslash # CHR ''U'' # lowerhex (r div 268435456) # lowerhex (r div 16777216)
                      # lowerhex (r div 1048576) # lowerhex (r div 65536) # lowerhex (r div 4096)
                      # lowerhex (r div 256) # lowerhex (r div 16) # lowerhex r # tail) buf
           = unquoteLoop tail (AppendRune buf r)"
proof -
  have v: "((((((((r div 268435456) mod 16) * 16 + (r div 16777216) mod 16) * 16 + (r div 1048576) mod 16) * 16
        + (r div 65536) mod 16) * 16 + (r div 4096) mod 16) * 16 + (r div 256) mod 16) * 16
      + (r div 16) mod 16) * 16 + r mod 16 = r"
    using hex8_value [of r] assms by simp
  have h: "hexDigits 8 (lowerhex (r div 268435456) # lowerhex (r div 16777216)
                      # lowerhex (r div 1048576) # lowerhex (r div 65536) # lowerhex (r div 4096)
                      # lowerhex (r div 256) # lowerhex (r div 16) # lowerhex r # tail) 0 = Some r"
    by (simp only: hexDigits8 v)
  have "unquoteEscape (CHR ''U'') (lowerhex (r div 268435456) # lowerhex (r div 16777216)
                      # lowerhex (r div 1048576) # lowerhex (r div 65536) # lowerhex (r div 4096)
                      # lowerhex (r div 256) # lowerhex (r div 16) # lowerhex r # tail) = Some (r, True, 10)"
    using assms(2) by (simp add: unquoteEscape_def h)
  then show ?thesis
    using unquoteLoop_step [of bslash "CHR ''U'' # lowerhex (r div 268435456) # lowerhex (r div 16777216)
                      # lowerhex (r div 1048576) # lowerhex (r div 65536) # lowerhex (r div 4096)
                      # lowerhex (r div 256) # lowerhex (r div 16) # lowerhex r # tail" r True 10 buf] assms(3)
    by (simp add: bslash_facts UnquoteChar_bslash unquoteAppend_def RuneSelf_def)
qed

lemma appendEscapedRune_append: "appendEscapedRune E buf r = buf @ appendEscapedRune E [] r"
  by (simp add: appendEscapedRune_def AppendRune_def Let_def)

lemma quoteStep_append: "quoteStep E buf c rw = buf @ quoteStep E [] c rw"
  using appendEscapedRune_append [of E buf "fst rw"] by (simp add: quoteStep_def)

lemma IsPrint_ascii: "r < 0x80 \<Longrightarrow> IsPrint E r = (0x20 \<le> r \<and> r \<le> 0x7E)"
  by (simp add: IsPrint_def)

lemma unquote_plain_char:
  assumes "0x20 \<le> byte c" "byte c < 0x80" "c \<noteq> dquote" "c \<noteq> bslash"
  shows "unquoteLoop (c # tail) buf = unquoteLoop tail (buf @ [c])"
proof -
  have nl: "c \<noteq> newline" using assms(1) by (auto simp: bslash_facts)
  have "UnquoteChar c tail = Some (byte c, False, 1)"
    using assms by (simp add: UnquoteChar_def RuneSelf_def)
  then show ?thesis
    using unquoteLoop_step [OF assms(3) nl, of tail "byte c" False 1 buf]
    by (simp add: unquoteAppend_def)
qed

lemma escape_table:
  "unquoteEscape (CHR ''a'') t = Some (0x07, False, 2)"
  "unquoteEscape (CHR ''b'') t = Some (0x08, False, 2)"
  "unquoteEscape (CHR ''f'') t = Some (0x0C, False, 2)"
  "unquoteEscape (CHR ''n'') t = Some (0x0A, False, 2)"
  "unquoteEscape (CHR ''r'') t = Some (0x0D, False, 2)"
  "unquoteEscape (CHR ''t'') t = Some (0x09, False, 2)"
  "unquoteEscape (CHR ''v'') t = Some (0x0B, False, 2)"
  "unquoteEscape bslash t = Some (byte bslash, False, 2)"
  "unquoteEscape dquote t = Some (byte dquote, False, 2)"
  by (simp_all add: unquoteEscape_def bslash_def dquote_def byte_def)

lemma quote_step_ascii:
  assumes a: "byte c < 0x80"
  shows "unquoteLoop (appendEscapedRune E [] (byte c) @ tail) buf = unquoteLoop tail (buf @ [c])"
proof -
  let ?r = "byte c"
  have cc: "char_of ?r = c" by simp
  consider (q) "c = dquote" | (b) "c = bslash"
    | (p) "c \<noteq> dquote" "c \<noteq> bslash" "0x20 \<le> ?r" "?r \<le> 0x7E"
    | (e) "?r = 0x07 \<or> ?r = 0x08 \<or> ?r = 0x0C \<or> ?r = 0x0A \<or> ?r = 0x0D \<or> ?r = 0x09 \<or> ?r = 0x0B"
    | (x) "?r < 0x20 \<or> ?r = 0x7F" "?r \<noteq> 0x07" "?r \<noteq> 0x08" "?r \<noteq> 0x0C" "?r \<noteq> 0x0A" "?r \<noteq> 0x0D"
        "?r \<noteq> 0x09" "?r \<noteq> 0x0B"
    using a by (cases "?r < 0x20 \<or> ?r = 0x7F") auto
  then show ?thesis
  proof cases
    case q
    have "appendEscapedRune E [] ?r = [bslash, dquote]"
      unfolding q by (simp add: appendEscapedRune_def)
    then show ?thesis
      using unquote_simple_escape [OF escape_table(9), of tail buf] q by simp
  next
    case b
    have "appendEscapedRune E [] ?r = [bslash, bslash]"
      unfolding b by (simp add: appendEscapedRune_def)
    then show ?thesis
      using unquote_simple_escape [OF escape_table(8), of tail buf] b by simp
  next
    case p
    have "?r \<noteq> byte dquote" "?r \<noteq> byte bslash" using p(1,2) by (simp_all add: byte_def)
    moreover have "IsPrint E ?r" using p a by (simp add: IsPrint_ascii)
    ultimately have "appendEscapedRune E [] ?r = [c]"
      using a by (simp add: appendEscapedRune_def AppendRune_def)
    then show ?thesis
      using unquote_plain_char [of c tail buf] p a by simp
  next
    case e
    have np: "\<not> IsPrint E ?r" using e a by (auto simp: IsPrint_ascii)
    have nq: "?r \<noteq> byte dquote" "?r \<noteq> byte bslash" using e by (auto simp: bslash_facts)
    from e show ?thesis
    proof (elim disjE)
      assume r: "?r = 0x07"
      then have "appendEscapedRune E [] ?r = [bslash, CHR ''a'']"
        using np nq by (simp add: appendEscapedRune_def)
      moreover have "c = char_of (0x07::nat)" using r cc by metis
      ultimately show ?thesis
        using unquote_simple_escape [OF escape_table(1), of tail buf] by simp
    next
      assume r: "?r = 0x08"
      then have "appendEscapedRune E [] ?r = [bslash, CHR ''b'']"
        using np nq by (simp add: appendEscapedRune_def)
      moreover have "c = char_of (0x08::nat)" using r cc by metis
      ultimately show ?thesis
        using unquote_simple_escape [OF escape_table(2), of tail buf] by simp
    next
      assume r: "?r = 0x0C"
      then have "appendEscapedRune E [] ?r = [bslash, CHR ''f'']"
        using np nq by (simp add: appendEscapedRune_def)
      moreover have "c = char_of (0x0C::nat)" using r cc by metis
      ultimately show ?thesis
        using unquote_simple_escape [OF escape_table(3), of tail buf] by simp
    next
      assume r: "?r = 0x0A"
      then have "appendEscapedRune E [] ?r = [bslash, CHR ''n'']"
        using np nq by (simp add: appendEscapedRune_def)
      moreover have "c = char_of (0x0A::nat)" using r cc by metis
      ultimately show ?thesis
        using unquote_simple_escape [OF escape_table(4), of tail buf] by simp
    next
      assume r: "?r = 0x0D"
      then have "appendEscapedRune E [] ?r = [bslash, CHR ''r'']"
        using np nq by (simp add: appendEscapedRune_def)
      moreover have "c = char_of (0x0D::nat)" using r cc by metis
      ultimately show ?thesis
        using unquote_simple_escape [OF escape_table(5), of tail buf] by simp
    next
      assume r: "?r = 0x09"
      then have "appendEscapedRune E [] ?r = [bslash, CHR ''t'']"
        using np nq by (simp add: appendEscapedRune_def)
      moreover have "c = char_of (0x09::nat)" using r cc by metis
      ultimately show ?thesis
        using unquote_simple_escape [OF escape_table(6), of tail buf] by simp
    next
      assume r: "?r = 0x0B"
      then have "appendEscapedRune E [] ?r = [bslash, CHR ''v'']"
        using np nq by (simp add: appendEscapedRune_def)
      moreover have "c = char_of (0x0B::nat)" using r cc by metis
      ultimately show ?thesis
        using unquote_simple_escape [OF escape_table(7), of tail buf] by simp
    qed
  next
    case x
    have np: "\<not> IsPrint E ?r" using x(1) a by (auto simp: IsPrint_ascii)
    have nq: "?r \<noteq> byte dquote" "?r \<noteq> byte bslash" using x(1) by (auto simp: bslash_facts)
    have "appendEscapedRune E [] ?r
            = [bslash, CHR ''x'', lowerhex (?r div 16), lowerhex (?r mod 16)]"
      using np nq x by (simp add: appendEscapedRune_def)
    then show ?thesis
      using unquote_x_escape [of ?r tail buf] by simp
  qed
qed

lemma quote_step_multi:
  assumes r: "0x80 \<le> r" "ValidRune r" "r \<le> 0x10FFFF"
    and enc: "\<And>p. AppendRune p r = p @ b0 # bs"
    and b0: "0x80 \<le> byte b0"
    and dec: "DecodeRuneInString (b0 # bs @ tail) = (r, Suc (length bs))"
  shows "unquoteLoop (appendEscapedRune E [] r @ tail) buf = unquoteLoop tail (buf @ b0 # bs)"
proof -
  have nq: "r \<noteq> byte dquote" "r \<noteq> byte bslash" using r(1) by (simp_all add: bslash_facts)
  show ?thesis
  proof (cases "IsPrint E r")
    case True
    then have out: "appendEscapedRune E [] r = b0 # bs"
      using nq enc [of "[]"] by (simp add: appendEscapedRune_def)
    have n1: "b0 \<noteq> dquote" "b0 \<noteq> newline" using b0 by (auto simp: bslash_facts)
    have "UnquoteChar b0 (bs @ tail) = Some (r, True, Suc (length bs))"
      using b0 n1 dec by (simp add: UnquoteChar_def RuneSelf_def)
    then show ?thesis
      using unquoteLoop_step [OF n1, of "bs @ tail" r True "Suc (length bs)" buf] r(1) enc [of buf]
      by (simp add: out unquoteAppend_def RuneSelf_def)
  next
    case False
    have ctl: "r \<noteq> 0x07" "r \<noteq> 0x08" "r \<noteq> 0x0C" "r \<noteq> 0x0A" "r \<noteq> 0x0D" "r \<noteq> 0x09" "r \<noteq> 0x0B"
      "\<not> (r < 0x20 \<or> r = 0x7F)"
      using r(1) by simp_all
    show ?thesis
    proof (cases "r < 0x10000")
      case True
      have "appendEscapedRune E [] r
              = [bslash, CHR ''u'', lowerhex (r div 4096), lowerhex (r div 256), lowerhex (r div 16),
                 lowerhex r]"
        using False nq ctl r(2) True by (simp add: appendEscapedRune_def Let_def)
      then show ?thesis
        using unquote_u_escape [OF True r(2) r(1), of tail buf] enc [of buf] by simp
    next
      case big: False
      have "appendEscapedRune E [] r
              = [bslash, CHR ''U'', lowerhex (r div 268435456), lowerhex (r div 16777216),
                 lowerhex (r div 1048576), lowerhex (r div 65536), lowerhex (r div 4096),
                 lowerhex (r div 256), lowerhex (r div 16), lowerhex r]"
        using False nq ctl r(2) big by (simp add: appendEscapedRune_def Let_def)
      then show ?thesis
        using unquote_U_escape [OF r(3) r(2) r(1), of tail buf] enc [of buf] by simp
    qed
  qed
qed

lemma quote_step:
  "1 \<le> snd (nextRune c rest) \<and> snd (nextRune c rest) \<le> Suc (length rest) \<and>
   (\<forall>tail buf. unquoteLoop (quoteStep E [] c (nextRune c rest) @ tail) buf
                 = unquoteLoop tail (buf @ take (snd (nextRune c rest)) (c # rest)))"
proof (cases "byte c < 0x80")
  case True
  then have n: "nextRune c rest = (byte c, 1)" by (simp add: nextRune_def RuneSelf_def)
  have "byte c \<noteq> RuneError" using True by (simp add: RuneError_def)
  then have "quoteStep E [] c (nextRune c rest) = appendEscapedRune E [] (byte c)"
    unfolding n by (simp add: quoteStep_def)
  then show ?thesis
    using quote_step_ascii [OF True, of E] by (simp add: n)
next
  case False
  then have hi: "0x80 \<le> byte c" by simp
  then have n: "nextRune c rest = DecodeRuneInString (c # rest)" by (simp add: nextRune_def RuneSelf_def)
  have inv: ?thesis if d: "DecodeRuneInString (c # rest) = (RuneError, 1)"
  proof -
    have "quoteStep E [] c (nextRune c rest)
            = [bslash, CHR ''x'', lowerhex (byte c div 16), lowerhex (byte c mod 16)]"
      unfolding n d by (simp add: quoteStep_def)
    then show ?thesis
      using unquote_x_escape [of "byte c"] by (simp add: n d)
  qed
  consider (bad) "byte c < 0xC2 \<or> 0xF5 \<le> byte c" | (two) "0xC2 \<le> byte c" "byte c < 0xE0"
    | (three) "0xE0 \<le> byte c" "byte c < 0xF0" | (four) "0xF0 \<le> byte c" "byte c < 0xF5"
    by linarith
  then show ?thesis
  proof cases
    case bad
    then show ?thesis using inv decode_invalid [OF hi] by blast
  next
    case two
    note d = decode2 [OF two]
    show ?thesis
    proof (cases rest)
      case Nil
      then show ?thesis using inv d by simp
    next
      case (Cons c1 rest')
      show ?thesis
      proof (cases "byte c1 < 0x80 \<or> 0xBF < byte c1")
        case True
        then show ?thesis using inv d Cons by simp
      next
        case ok: False
        define r where "r = (byte c mod 32) * 64 + byte c1 mod 64"
        have c1: "0x80 \<le> byte c1" "byte c1 \<le> 0xBF" using ok by simp_all
        note rt = roundtrip2 [OF two c1, folded r_def]
        have dr: "DecodeRuneInString (c # rest) = (r, 2)" using d ok Cons by (simp add: r_def)
        have dt: "DecodeRuneInString (c # [c1] @ tail) = (r, Suc (length [c1]))" for tail
          using decode2 [OF two, of "c1 # tail"] ok by (simp add: r_def)
        have ne: "\<not> (snd (r, 2::nat) = 1 \<and> fst (r, 2::nat) = RuneError)" by simp
        have v: "ValidRune r" "r \<le> 0x10FFFF" using rt(1,2) by (simp_all add: ValidRune_def)
        have "unquoteLoop (appendEscapedRune E [] r @ tail) buf = unquoteLoop tail (buf @ c # [c1])"
          for tail buf
          by (rule quote_step_multi [OF rt(1) v _ hi dt]) (simp add: rt(3))
        then show ?thesis
          unfolding n dr using Cons by (simp add: quoteStep_def)
      qed
    qed
  next
    case three
    note d = decode3 [OF three]
    show ?thesis
    proof (cases "\<exists>c1 c2 rest'. rest = c1 # c2 # rest' \<and> \<not> (byte c1 < lo3 (byte c) \<or> hi3 (byte c) < byte c1)
                    \<and> \<not> (byte c2 < 0x80 \<or> 0xBF < byte c2)")
      case False
      then have "DecodeRuneInString (c # rest) = (RuneError, 1)"
        unfolding d by (auto split: list.splits)
      then show ?thesis by (rule inv)
    next
      case True
      then obtain c1 c2 rest' where rest: "rest = c1 # c2 # rest'"
        and c1: "lo3 (byte c) \<le> byte c1" "byte c1 \<le> hi3 (byte c)"
        and c2: "0x80 \<le> byte c2" "byte c2 \<le> 0xBF"
        by auto
      define r where "r = (byte c mod 16) * 4096 + (byte c1 mod 64) * 64 + byte c2 mod 64"
      note rt = roundtrip3 [OF three c1 c2, folded r_def]
      have dr: "DecodeRuneInString (c # rest) = (r, 3)"
        unfolding d rest using c1 c2 by (simp add: r_def)
      have dt: "DecodeRuneInString (c # [c1, c2] @ tail) = (r, Suc (length [c1, c2]))" for tail
        using decode3 [OF three, of "c1 # c2 # tail"] c1 c2 by (simp add: r_def)
      have r80: "0x80 \<le> r" "r \<le> 0x10FFFF" using rt(1,2) by simp_all
      have "unquoteLoop (appendEscapedRune E [] r @ tail) buf = unquoteLoop tail (buf @ c # [c1, c2])"
        for tail buf
        by (rule quote_step_multi [OF r80(1) rt(3) r80(2) _ hi dt]) (simp add: rt(4))
      then show ?thesis
        unfolding n dr using rest by (simp add: quoteStep_def)
    qed
  next
    case four
    note d = decode4 [OF four]
    show ?thesis
    proof (cases "\<exists>c1 c2 c3 rest'. rest = c1 # c2 # c3 # rest'
                    \<and> \<not> (byte c1 < lo4 (byte c) \<or> hi4 (byte c) < byte c1)
                    \<and> \<not> (byte c2 < 0x80 \<or> 0xBF < byte c2) \<and> \<not> (byte c3 < 0x80 \<or> 0xBF < byte c3)")
      case False
      then have "DecodeRuneInString (c # rest) = (RuneError, 1)"
        unfolding d by (auto split: list.splits)
      then show ?thesis by (rule inv)
    next
      case True
      then obtain c1 c2 c3 rest' where rest: "rest = c1 # c2 # c3 # rest'"
        and c1: "lo4 (byte c) \<le> byte c1" "byte c1 \<le> hi4 (byte c)"
        and c2: "0x80 \<le> byte c2" "byte c2 \<le> 0xBF"
        and c3: "0x80 \<le> byte c3" "byte c3 \<le> 0xBF"
        by auto
      define r where "r = (byte c mod 8) * 262144 + (byte c1 mod 64) * 4096 + (byte c2 mod 64) * 64
                  + byte c3 mod 64"
      note rt = roundtrip4 [OF four c1 c2 c3, folded r_def]
      have dr: "DecodeRuneInString (c # rest) = (r, 4)"
        unfolding d rest using c1 c2 c3 by (simp add: r_def)
      have dt: "DecodeRuneInString (c # [c1, c2, c3] @ tail) = (r, Suc (length [c1, c2, c3]))" for tail
        using decode4 [OF four, of "c1 # c2 # c3 # tail"] c1 c2 c3 by (simp add: r_def)
      have r80: "0x80 \<le> r" using rt(1) by simp
      have "unquoteLoop (appendEscapedRune E [] r @ tail) buf = unquoteLoop tail (buf @ c # [c1, c2, c3])"
        for tail buf
        by (rule quote_step_multi [OF r80 rt(3) rt(2) _ hi dt]) (simp add: rt(4))
      then show ?thesis
        unfolding n dr using rest by (simp add: quoteStep_def)
    qed
  qed
qed

lemma appendQuotedLoop_append: "appendQuotedLoop E buf s = buf @ appendQuotedLoop E [] s"
proof (induction "length s" arbitrary: s buf rule: less_induct)
  case less
  show ?case
  proof (cases s)
    case Nil
    then show ?thesis by simp
  next
    case (Cons c rest)
    let ?d = "drop (snd (nextRune c rest) - 1) rest"
    have len: "length ?d < length s" using Cons by simp
    have "appendQuotedLoop E buf s = appendQuotedLoop E (quoteStep E buf c (nextRune c rest)) ?d"
      using Cons by simp
    also have "\<dots> = quoteStep E buf c (nextRune c rest) @ appendQuotedLoop E [] ?d"
      using less [OF len] .
    also have "\<dots> = buf @ quoteStep E [] c (nextRune c rest) @ appendQuotedLoop E [] ?d"
      using quoteStep_append [of E buf c "nextRune c rest"] by simp
    also have "quoteStep E [] c (nextRune c rest) @ appendQuotedLoop E [] ?d
                 = appendQuotedLoop E (quoteStep E [] c (nextRune c rest)) ?d"
      using less [OF len, of "quoteStep E [] c (nextRune c rest)"] by simp
    finally show ?thesis using Cons by simp
  qed
qed

lemma take_rune_drop:
  assumes "1 \<le> w"
  shows "take w (c # rest) @ drop (w - 1) rest = c # rest"
proof -
  obtain k where "w = Suc k" using assms by (cases w) simp_all
  then show ?thesis by simp
qed

lemma unquoteLoop_quoted:
  "unquoteLoop (appendQuotedLoop E [] s @ dquote # rem) buf = Some (buf @ s, rem)"
proof (induction "length s" arbitrary: s buf rule: less_induct)
  case less
  show ?case
  proof (cases s)
    case Nil
    then show ?thesis by simp
  next
    case (Cons c rest)
    let ?w = "snd (nextRune c rest)"
    let ?d = "drop (?w - 1) rest"
    note st = quote_step [of c rest E]
    have len: "length ?d < length s" using Cons by simp
    have "appendQuotedLoop E [] s = quoteStep E [] c (nextRune c rest) @ appendQuotedLoop E [] ?d"
      using Cons appendQuotedLoop_append [of E "quoteStep E [] c (nextRune c rest)" ?d] by simp
    then have "unquoteLoop (appendQuotedLoop E [] s @ dquote # rem) buf
        = unquoteLoop (quoteStep E [] c (nextRune c rest) @ (appendQuotedLoop E [] ?d @ dquote # rem)) buf"
      by simp
    also have "\<dots> = unquoteLoop (appendQuotedLoop E [] ?d @ dquote # rem) (buf @ take ?w (c # rest))"
      using st by blast
    also have "\<dots> = Some ((buf @ take ?w (c # rest)) @ ?d, rem)"
      using less [OF len] .
    also have "(buf @ take ?w (c # rest)) @ ?d = buf @ s"
      using take_rune_drop [of ?w c rest] st Cons by simp
    finally show ?thesis .
  qed
qed

lemma Quote_eq: "Quote E s = dquote # appendQuotedLoop E [] s @ [dquote]"
  using appendQuotedLoop_append [of E "[dquote]" s] by (simp add: Quote_def)

lemma Unquote_Quote: "Unquote (Quote E s) = Some s"
  using unquoteLoop_quoted [of E s "[]" "[]"] by (simp add: Unquote_def Quote_eq)

lemma decode_summary:
  assumes hi: "0x80 \<le> byte c"
  shows "1 \<le> snd (DecodeRuneInString (c # rest)) \<and>
         snd (DecodeRuneInString (c # rest)) \<le> Suc (length rest) \<and>
         0x80 \<le> fst (DecodeRuneInString (c # rest)) \<and>
         (\<forall>b \<in> set (take (snd (DecodeRuneInString (c # rest)) - 1) rest). 0x80 \<le> byte b)"
proof -
  have inv: ?thesis if d: "DecodeRuneInString (c # rest) = (RuneError, 1)"
    unfolding d by (simp add: RuneError_def)
  consider (bad) "byte c < 0xC2 \<or> 0xF5 \<le> byte c" | (two) "0xC2 \<le> byte c" "byte c < 0xE0"
    | (three) "0xE0 \<le> byte c" "byte c < 0xF0" | (four) "0xF0 \<le> byte c" "byte c < 0xF5"
    by linarith
  then show ?thesis
  proof cases
    case bad
    then show ?thesis using inv decode_invalid [OF hi] by blast
  next
    case two
    note d = decode2 [OF two]
    show ?thesis
    proof (cases "\<exists>c1 rest'. rest = c1 # rest' \<and> \<not> (byte c1 < 0x80 \<or> 0xBF < byte c1)")
      case False
      then have "DecodeRuneInString (c # rest) = (RuneError, 1)"
        unfolding d by (auto split: list.splits)
      then show ?thesis by (rule inv)
    next
      case True
      then obtain c1 rest' where rest: "rest = c1 # rest'" and c1: "0x80 \<le> byte c1" "byte c1 \<le> 0xBF"
        by auto
      have "DecodeRuneInString (c # rest) = ((byte c mod 32) * 64 + byte c1 mod 64, 2)"
        unfolding d rest using c1 by simp
      then show ?thesis
        using roundtrip2(1) [OF two c1] c1 rest by simp
    qed
  next
    case three
    note d = decode3 [OF three]
    show ?thesis
    proof (cases "\<exists>c1 c2 rest'. rest = c1 # c2 # rest' \<and> \<not> (byte c1 < lo3 (byte c) \<or> hi3 (byte c) < byte c1)
                    \<and> \<not> (byte c2 < 0x80 \<or> 0xBF < byte c2)")
      case False
      then have "DecodeRuneInString (c # rest) = (RuneError, 1)"
        unfolding d by (auto split: list.splits)
      then show ?thesis by (rule inv)
    next
      case True
      then obtain c1 c2 rest' where rest: "rest = c1 # c2 # rest'"
        and c1: "lo3 (byte c) \<le> byte c1" "byte c1 \<le> hi3 (byte c)"
        and c2: "0x80 \<le> byte c2" "byte c2 \<le> 0xBF"
        by auto
      have c1': "0x80 \<le> byte c1" using c1(1) by (auto simp: lo3_def split: if_splits)
      have "DecodeRuneInString (c # rest)
              = ((byte c mod 16) * 4096 + (byte c1 mod 64) * 64 + byte c2 mod 64, 3)"
        unfolding d rest using c1 c2 by simp
      then show ?thesis
        using roundtrip3(1) [OF three c1 c2] c1' c2 rest by simp
    qed
  next
    case four
    note d = decode4 [OF four]
    show ?thesis
    proof (cases "\<exists>c1 c2 c3 rest'. rest = c1 # c2 # c3 # rest'
                    \<and> \<not> (byte c1 < lo4 (byte c) \<or> hi4 (byte c) < byte c1)
                    \<and> \<not> (byte c2 < 0x80 \<or> 0xBF < byte c2) \<and> \<not> (byte c3 < 0x80 \<or> 0xBF < byte c3)")
      case False
      then have "DecodeRuneInString (c # rest) = (RuneError, 1)"
        unfolding d by (auto split: list.splits)
      then show ?thesis by (rule inv)
    next
      case True
      then obtain c1 c2 c3 rest' where rest: "rest = c1 # c2 # c3 # rest'"
        and c1: "lo4 (byte c) \<le> byte c1" "byte c1 \<le> hi4 (byte c)"
        and c2: "0x80 \<le> byte c2" "byte c2 \<le> 0xBF"
        and c3: "0x80 \<le> byte c3" "byte c3 \<le> 0xBF"
        by auto
      have c1': "0x80 \<le> byte c1" using c1(1) by (auto simp: lo4_def split: if_splits)
      have "DecodeRuneInString (c # rest)
              = ((byte c mod 8) * 262144 + (byte c1 mod 64) * 4096 + (byte c2 mod 64) * 64
                  + byte c3 mod 64, 4)"
        unfolding d rest using c1 c2 c3 by simp
      then show ?thesis
        using roundtrip4(1) [OF four c1 c2 c3] c1' c2 c3 rest by simp
    qed
  qed
qed

lemma special_low: "special r \<Longrightarrow> r < 0x80"
  by (auto simp: special_def)

lemma runes_special: "list_ex special (runes s) \<longleftrightarrow> (\<exists>c \<in> set s. special (byte c))"
proof (induction "length s" arbitrary: s rule: less_induct)
  case less
  show ?case
  proof (cases s)
    case Nil
    then show ?thesis by simp
  next
    case (Cons c rest)
    let ?w = "snd (nextRune c rest)"
    let ?d = "drop (?w - 1) rest"
    have len: "length ?d < length s" using Cons by simp
    note ih = less [OF len]
    show ?thesis
    proof (cases "byte c < 0x80")
      case True
      then have "nextRune c rest = (byte c, 1)" by (simp add: nextRune_def RuneSelf_def)
      then show ?thesis using ih Cons by simp
    next
      case False
      then have hi: "0x80 \<le> byte c" by simp
      then have n: "nextRune c rest = DecodeRuneInString (c # rest)"
        by (simp add: nextRune_def RuneSelf_def)
      note s = decode_summary [OF hi, of rest, folded n]
      have r: "\<not> special (fst (nextRune c rest))" using s special_low by fastforce
      have c: "\<not> special (byte c)" using hi special_low by fastforce
      have skipped: "\<not> special (byte b)" if "b \<in> set (take (?w - 1) rest)" for b
        using s that special_low by fastforce
      have "(\<exists>b \<in> set rest. special (byte b)) \<longleftrightarrow> (\<exists>b \<in> set ?d. special (byte b))"
      proof -
        have "set rest = set (take (?w - 1) rest) \<union> set ?d"
          using set_append [of "take (?w - 1) rest" ?d] by simp
        then show ?thesis using skipped by blast
      qed
      then show ?thesis using ih Cons r c by simp
    qed
  qed
qed

lemma byte_inj: "byte c = byte d \<longleftrightarrow> c = d"
  by (simp add: byte_def)

lemma special_byte:
  "special (byte c) \<longleftrightarrow>
     (c = CHR '' '' \<or> c = dquote \<or> c = CHR ''='' \<or> c = newline \<or> c = CHR 0x0D \<or> c = CHR 0x09)"
proof -
  have "special (byte c) \<longleftrightarrow>
     (byte c = byte (CHR '' '') \<or> byte c = byte dquote \<or> byte c = byte (CHR ''='')
      \<or> byte c = byte newline \<or> byte c = byte (CHR 0x0D) \<or> byte c = byte (CHR 0x09))"
    by (simp add: special_def byte_def dquote_def newline_def)
  then show ?thesis by (simp only: byte_inj)
qed

lemma needsQuoting_iff:
  "needsQuoting s \<longleftrightarrow>
     (\<exists>c \<in> set s. c = CHR '' '' \<or> c = dquote \<or> c = CHR ''='' \<or> c = newline \<or> c = CHR 0x0D \<or> c = CHR 0x09)"
proof -
  have "needsQuoting s = list_ex special (runes s)"
    by (simp add: needsQuoting_def special_def [abs_def])
  also have "\<dots> \<longleftrightarrow> (\<exists>c \<in> set s. special (byte c))" by (rule runes_special)
  also have "\<dots> \<longleftrightarrow> (\<exists>c \<in> set s. c = CHR '' '' \<or> c = dquote \<or> c = CHR ''='' \<or> c = newline
                      \<or> c = CHR 0x0D \<or> c = CHR 0x09)"
    by (simp only: special_byte)
  finally show ?thesis .
qed

subsection \<open>No raw control byte in a quoted literal\<close>

lemma visible_char_of: "0x20 \<le> (n::nat) \<Longrightarrow> n < 256 \<Longrightarrow> n \<noteq> 0x7F \<Longrightarrow> visible (char_of n)"
  by (simp add: visible_def byte_char_of)

lemma visible_lowerhex: "visible (lowerhex n)"
  using lowerhex_plain [of n] by (simp add: visible_def)

lemma visible_consts: "visible bslash" "visible dquote" "visible (CHR ''x'')" "visible (CHR ''u'')"
  "visible (CHR ''U'')" "visible (CHR ''a'')" "visible (CHR ''b'')" "visible (CHR ''f'')"
  "visible (CHR ''n'')" "visible (CHR ''r'')" "visible (CHR ''t'')" "visible (CHR ''v'')"
  by (simp_all add: visible_def byte_def bslash_def dquote_def)

lemma visible_AppendRune:
  assumes "r \<le> 0x7F \<longrightarrow> 0x20 \<le> r \<and> r \<noteq> 0x7F"
  shows "list_all visible (AppendRune [] r)"
proof -
  have err: "list_all visible [char_of (0xE0 + RuneError div 4096),
        char_of (0x80 + (RuneError div 64) mod 64), char_of (0x80 + RuneError mod 64)]"
    by (simp add: RuneError_def visible_char_of)
  consider (one) "r \<le> 0x7F" | (two) "0x7F < r" "r \<le> 0x7FF"
    | (lo3) "0x7FF < r" "r < 0xD800" | (sur) "0xD800 \<le> r" "r \<le> 0xDFFF"
    | (hi3) "0xDFFF < r" "r \<le> 0xFFFF" | (four) "0xFFFF < r" "r \<le> 0x10FFFF" | (big) "0x10FFFF < r"
    by linarith
  then show ?thesis
  proof cases
    case one
    then show ?thesis using assms by (simp add: AppendRune_def visible_char_of)
  next
    case two
    have "r div 64 < 32" using two by simp
    moreover have "r mod 64 < 64" by simp
    ultimately show ?thesis using two by (simp add: AppendRune_def visible_char_of)
  next
    case lo3
    have "r div 4096 < 16" using lo3 by simp
    moreover have "(r div 64) mod 64 < 64" "r mod 64 < 64" by simp_all
    ultimately show ?thesis using lo3 by (simp add: AppendRune_def MaxRune_def visible_char_of)
  next
    case sur
    then show ?thesis using err by (simp add: AppendRune_def)
  next
    case hi3
    have "r div 4096 < 16" using hi3 by simp
    moreover have "(r div 64) mod 64 < 64" "r mod 64 < 64" by simp_all
    ultimately show ?thesis using hi3 by (simp add: AppendRune_def MaxRune_def visible_char_of)
  next
    case four
    have "r div 262144 < 5" using four by simp
    moreover have "(r div 4096) mod 64 < 64" "(r div 64) mod 64 < 64" "r mod 64 < 64" by simp_all
    ultimately show ?thesis using four by (simp add: AppendRune_def MaxRune_def visible_char_of)
  next
    case big
    then show ?thesis using err by (simp add: AppendRune_def MaxRune_def)
  qed
qed

lemma visible_appendEscapedRune: "list_all visible (appendEscapedRune E [] r)"
proof -
  have pr: "list_all visible (AppendRune [] r)" if "IsPrint E r"
  proof (rule visible_AppendRune)
    show "r \<le> 0x7F \<longrightarrow> 0x20 \<le> r \<and> r \<noteq> 0x7F"
      using that by (auto simp: IsPrint_def split: if_splits)
  qed
  have q: "visible (char_of r)" if "r = byte dquote \<or> r = byte bslash"
    using that visible_consts(1,2) by auto
  show ?thesis
    unfolding appendEscapedRune_def Let_def
    using pr q by (simp add: visible_consts visible_lowerhex)
qed

lemma visible_quoteStep: "list_all visible (quoteStep E [] c rw)"
  using visible_appendEscapedRune [of E "fst rw"]
  by (simp add: quoteStep_def visible_consts visible_lowerhex)

lemma visible_appendQuotedLoop: "list_all visible (appendQuotedLoop E [] s)"
proof (induction "length s" arbitrary: s rule: less_induct)
  case less
  show ?case
  proof (cases s)
    case Nil
    then show ?thesis by simp
  next
    case (Cons c rest)
    let ?d = "drop (snd (nextRune c rest) - 1) rest"
    have len: "length ?d < length s" using Cons by simp
    have "appendQuotedLoop E [] s = quoteStep E [] c (nextRune c rest) @ appendQuotedLoop E [] ?d"
      using Cons appendQuotedLoop_append [of E "quoteStep E [] c (nextRune c rest)" ?d] by simp
    then show ?thesis
      using less [OF len] visible_quoteStep [of E c "nextRune c rest"] by simp
  qed
qed

lemma visible_Quote: "list_all visible (Quote E s)"
  using visible_appendQuotedLoop [of E s] by (simp add: Quote_eq visible_consts)

subsection \<open>The claim\<close>

text \<open>
  Claim C3. A string value that contains none of space, double quote, equals sign,
  newline, carriage return and tab is rendered as it is. Any other string value is
  rendered as its quoted literal: it starts and ends with a double quote, holds no raw
  control byte, and reading the literal back with Unquote gives the original string.
\<close>

theorem string_value_quoting_roundtrip:
  "(\<not> (\<exists>c \<in> set s. c = CHR '' '' \<or> c = dquote \<or> c = CHR ''='' \<or> c = newline \<or> c = CHR 0x0D
                      \<or> c = CHR 0x09)
      \<longrightarrow> formatValue E (StringValue s) = s) \<and>
   ((\<exists>c \<in> set s. c = CHR '' '' \<or> c = dquote \<or> c = CHR ''='' \<or> c = newline \<or> c = CHR 0x0D
                      \<or> c = CHR 0x09)
      \<longrightarrow> formatValue E (StringValue s) = Quote E s \<and>
          hd (Quote E s) = dquote \<and> last (Quote E s) = dquote \<and>
          list_all visible (Quote E s) \<and>
          Unquote (formatValue E (StringValue s)) = Some s)"
  using needsQuoting_iff [of s] Unquote_Quote [of E s] visible_Quote [of E s]
  by (simp add: formatValue_def Quote_eq)

theorem string_value_quoting_witness:
  "formatValue plainEnv (StringValue ''abc'') = ''abc'' \<and>
   formatValue plainEnv (StringValue ''a b'') = Quote plainEnv ''a b'' \<and>
   Unquote (formatValue plainEnv (StringValue ''a b'')) = Some ''a b''"
proof -
  have plain: "\<not> (\<exists>c \<in> set ''abc''. c = CHR '' '' \<or> c = dquote \<or> c = CHR ''='' \<or> c = newline
                      \<or> c = CHR 0x0D \<or> c = CHR 0x09)"
    by (simp add: dquote_def newline_def)
  have quoted: "\<exists>c \<in> set ''a b''. c = CHR '' '' \<or> c = dquote \<or> c = CHR ''='' \<or> c = newline
                      \<or> c = CHR 0x0D \<or> c = CHR 0x09"
    by simp
  show ?thesis
    using string_value_quoting_roundtrip [of "''abc''" plainEnv]
      string_value_quoting_roundtrip [of "''a b''" plainEnv] plain quoted
    by blast
qed

section \<open>The record and the line of a logging call\<close>

lemma ContextHandler_Handle_inner:
  "ContextHandler_Handle inner h ctx r = inner (handler h) ctx (ContextHandler_Handle (\<lambda>h ctx r. r) h ctx r)"
  by (simp add: ContextHandler_Handle_def Let_def)

lemma handedRecord_fields:
  "Level (handedRecord E ctx l lvl msg args) = lvl"
  "Message (handedRecord E ctx l lvl msg args) = msg"
  "Time (handedRecord E ctx l lvl msg args) = Now E"
  "PC (handedRecord E ctx l lvl msg args) = Callers E callerSkip"
  "set (rattrs (handedRecord E ctx l lvl msg args)) \<subseteq> set (contextAttrs ctx (keys l) []) \<union> set args"
proof -
  let ?r = "Add (NewRecord (Now E) lvl msg (Callers E callerSkip)) args"
  obtain r' where r': "ContextHandler_Handle (\<lambda>h ctx r. r) l ctx ?r = r'"
    and sub: "set (rattrs r') \<subseteq> set (contextAttrs ctx (keys l) []) \<union> set (rattrs ?r)"
    and f: "Level r' = Level ?r" "Message r' = Message ?r" "Time r' = Time ?r" "PC r' = PC ?r"
    using ContextHandler_Handle_record [of "\<lambda>h ctx r. r" l ctx ?r] by auto
  have "set (rattrs ?r) \<subseteq> set args" by (auto simp: Add_def NewRecord_def)
  then show "set (rattrs (handedRecord E ctx l lvl msg args)) \<subseteq> set (contextAttrs ctx (keys l) []) \<union> set args"
    using sub r' by (auto simp: handedRecord_def)
  show "Level (handedRecord E ctx l lvl msg args) = lvl" "Message (handedRecord E ctx l lvl msg args) = msg"
    "Time (handedRecord E ctx l lvl msg args) = Now E" "PC (handedRecord E ctx l lvl msg args) = Callers E callerSkip"
    using f r' by (simp_all add: handedRecord_def Add_def NewRecord_def)
qed

lemma logWithCaller_Handle:
  "logWithCaller n E ctx l lvl msg args tr =
     (if Enabled (handler l) lvl
      then map_option fst (Handle n E (handler l) (handedRecord E ctx l lvl msg args) tr)
      else Some tr)"
  using ContextHandler_Handle_inner [of "\<lambda>h ctx r. Handle n E h r tr" l ctx
      "Add (NewRecord (Now E) lvl msg (Callers E callerSkip)) args"]
  by (auto simp: logWithCaller_def ContextHandler_Enabled_def Let_def handedRecord_def
      split: option.splits)

lemma handedRecord_fuel:
  assumes "maxDepth (contextAttrs ctx (keys l) [] @ args) < n"
  shows "maxDepth (rattrs (handedRecord E ctx l lvl msg args)) < n"
proof (rule maxDepth_lessI)
  show "0 < n" using assms by simp
  fix a assume "a \<in> set (rattrs (handedRecord E ctx l lvl msg args))"
  then have "a \<in> set (contextAttrs ctx (keys l) [] @ args)"
    using handedRecord_fields(5) [of E ctx l lvl msg args] by auto
  then show "depth a < n" using maxDepth_less [OF assms] by blast
qed

text \<open>The text Handle has built when it appends the final newline.\<close>

lemma Handle_line:
  assumes "hook_bounded (opts h)" "maxDepth (rattrs r) < n"
  shows "\<exists>body. handleAttrs (appendAttr n E (opts h)) (handleHead E h r) (rattrs r) (groups h) = Some body \<and>
           Handle n E h r tr
             = Some (tr @ [(output_ref h, body @ [newline])],
                     Write E (output_ref h) tr (body @ [newline]))"
proof -
  have "\<exists>b'. handleAttrs (appendAttr n E (opts h)) (handleHead E h r) (rattrs r) (groups h) = Some b'"
  proof (rule handleAttrs_returns)
    fix b a assume "a \<in> set (rattrs r)"
    then have "depth a < n" using maxDepth_less [OF assms(2)] by blast
    then show "\<exists>b'. appendAttr n E (opts h) b a (groups h) = Some b'"
      using appendAttr_returns assms(1) by blast
  qed
  then show ?thesis by (auto simp: Handle_def Let_def)
qed

section \<open>Write errors\<close>

text \<open>
  Claim C8. Handle makes one write to its sink and returns exactly the error of that
  write, nil when the write succeeded. Each of the eight logging functions, the free and
  the method forms of Debug, Info, Warn and Error, returns normally whatever the sink
  answers: when its level is enabled, the line that Handle has built for the record of
  the call has been handed to the sink and the error of that write is dropped; when its
  level is not enabled nothing is written. The statement is for handlers whose
  replacement hook does not deepen the attributes it is given (the hook that Init installs
  is one, and so is no hook) and for a recursion bound above the nesting depth of the
  attributes rendered.
\<close>

theorem write_error_returned_and_dropped:
  assumes "hook_bounded (opts (handler l))"
    and "maxDepth (contextAttrs ctx (keys l) [] @ args) < n"
    and "hook_bounded (opts h)"
    and "maxDepth (rattrs r) < n"
  shows "(\<exists>line. Handle n E h r tr
                  = Some (tr @ [(output_ref h, line)], Write E (output_ref h) tr line)) \<and>
         (\<forall>(f, lvl) \<in> set [(Debug, LevelDebug), (Info, LevelInfo), (Warn, LevelWarn), (Error, LevelError),
                           (Logger_Debug, LevelDebug), (Logger_Info, LevelInfo),
                           (Logger_Warn, LevelWarn), (Logger_Error, LevelError)].
            \<exists>line. Handle n E (handler l) (handedRecord E ctx l lvl msg args) tr
                     = Some (tr @ [(output_ref (handler l), line)],
                             Write E (output_ref (handler l)) tr line) \<and>
                   f n E l ctx msg args tr
                     = (if Enabled (handler l) lvl then Some (tr @ [(output_ref (handler l), line)])
                        else Some tr))"
proof (intro conjI)
  show "\<exists>line. Handle n E h r tr = Some (tr @ [(output_ref h, line)], Write E (output_ref h) tr line)"
    using Handle_line [OF assms(3,4), of E tr] by blast
next
  have call: "\<exists>line. Handle n E (handler l) (handedRecord E ctx l lvl msg args) tr
                     = Some (tr @ [(output_ref (handler l), line)],
                             Write E (output_ref (handler l)) tr line) \<and>
                   logWithCaller n E ctx l lvl msg args tr
                     = (if Enabled (handler l) lvl then Some (tr @ [(output_ref (handler l), line)])
                        else Some tr)" for lvl
  proof -
    obtain body where "Handle n E (handler l) (handedRecord E ctx l lvl msg args) tr
             = Some (tr @ [(output_ref (handler l), body @ [newline])],
                     Write E (output_ref (handler l)) tr (body @ [newline]))"
      using Handle_line [OF assms(1) handedRecord_fuel [OF assms(2), of E lvl msg], of E tr] by blast
    then show ?thesis
      using logWithCaller_Handle [of n E ctx l lvl msg args tr] by auto
  qed
  show "\<forall>(f, lvl) \<in> set [(Debug, LevelDebug), (Info, LevelInfo), (Warn, LevelWarn), (Error, LevelError),
                           (Logger_Debug, LevelDebug), (Logger_Info, LevelInfo),
                           (Logger_Warn, LevelWarn), (Logger_Error, LevelError)].
            \<exists>line. Handle n E (handler l) (handedRecord E ctx l lvl msg args) tr
                     = Some (tr @ [(output_ref (handler l), line)],
                             Write E (output_ref (handler l)) tr line) \<and>
                   f n E l ctx msg args tr
                     = (if Enabled (handler l) lvl then Some (tr @ [(output_ref (handler l), line)])
                        else Some tr)"
    using call [of LevelDebug] call [of LevelInfo] call [of LevelWarn] call [of LevelError]
    by (simp add: Debug_def Info_def Warn_def Error_def Logger_Debug_def Logger_Info_def
        Logger_Warn_def Logger_Error_def)
qed

theorem write_error_witness:
  "Handle 1 plainEnv (NewColorHandler 2 0 (Init_handlerOpts plainEnv plainConfig))
       (NewRecord 0 LevelError ''m'' 0) []
     = Some ([(0, colorRed @ ''ERR'' @ colorReset @ '' '' @ colorBold @ ''m'' @ colorReset @ [newline])],
             Some (WriteError ''closed'')) \<and>
   Error 1 plainEnv
       (NewContextHandler (NewColorHandler 2 0 (Init_handlerOpts plainEnv plainConfig)) [TraceIDKey])
       (\<lambda>k. None) ''m'' [] []
     = Some [(0, colorGray @ ''12:00'' @ colorReset @ '' '' @ colorRed @ ''ERR'' @ colorReset @ '' ''
                 @ colorCyan @ ''main.go:25'' @ colorReset @ '' '' @ colorBold @ ''m'' @ colorReset
                 @ [newline])]"
proof -
  let ?h = "NewColorHandler 2 0 (Init_handlerOpts plainEnv plainConfig)"
  let ?l = "NewContextHandler ?h [TraceIDKey]"
  let ?ctx = "\<lambda>k. None :: Value option"
  let ?r = "NewRecord 0 LevelError ''m'' 0"
  have hl: "handler ?l = ?h" by (simp add: NewContextHandler_def)
  have hb: "hook_bounded (opts ?h)"
    using hook_bounded_Init by (simp add: NewColorHandler_def)
  have fuel: "maxDepth (contextAttrs ?ctx (keys ?l) [] @ []) < 1"
    by code_simp
  have fuel2: "maxDepth (rattrs ?r) < 1"
    by code_simp
  have out: "output_ref ?h = 0" by (simp add: NewColorHandler_def)
  have en: "Enabled ?h LevelError"
    by (simp add: Enabled_def NewColorHandler_def Init_handlerOpts_def plainConfig_def level_defs)
  have wr: "Write plainEnv 0 tr p = Some (WriteError ''closed'')" for tr p
    by (simp add: plainEnv_def)
  note t = write_error_returned_and_dropped [of ?l ?ctx "[]" 1 ?h ?r plainEnv "[]" "''m''",
      unfolded hl, OF hb fuel hb fuel2, unfolded out wr]
  have e1: "Handle 1 plainEnv ?h ?r []
     = Some ([(0, colorRed @ ''ERR'' @ colorReset @ '' '' @ colorBold @ ''m'' @ colorReset @ [newline])],
             Some (WriteError ''closed''))"
    by code_simp
  have e2: "Handle 1 plainEnv ?h (handedRecord plainEnv ?ctx ?l LevelError ''m'' []) []
     = Some ([(0, colorGray @ ''12:00'' @ colorReset @ '' '' @ colorRed @ ''ERR'' @ colorReset @ '' ''
                 @ colorCyan @ ''main.go:25'' @ colorReset @ '' '' @ colorBold @ ''m'' @ colorReset
                 @ [newline])],
             Some (WriteError ''closed''))"
    by code_simp
  have "(Error, LevelError) \<in> set [(Debug, LevelDebug), (Info, LevelInfo), (Warn, LevelWarn), (Error, LevelError),
                           (Logger_Debug, LevelDebug), (Logger_Info, LevelInfo),
                           (Logger_Warn, LevelWarn), (Logger_Error, LevelError)]"
    by simp
  then obtain line where
    "Handle 1 plainEnv ?h (handedRecord plainEnv ?ctx ?l LevelError ''m'' []) []
       = Some ([] @ [(0, line)], Some (WriteError ''closed''))"
    and "Error 1 plainEnv ?l ?ctx ''m'' [] []
       = (if Enabled ?h LevelError then Some ([] @ [(0, line)]) else Some [])"
    using t by blast
  then have "Error 1 plainEnv ?l ?ctx ''m'' [] []
     = Some [(0, colorGray @ ''12:00'' @ colorReset @ '' '' @ colorRed @ ''ERR'' @ colorReset @ '' ''
                 @ colorCyan @ ''main.go:25'' @ colorReset @ '' '' @ colorBold @ ''m'' @ colorReset
                 @ [newline])]"
    using e2 en by simp
  then show ?thesis using e1 by simp
qed

section \<open>Level gate and the written line\<close>

lemma nlfree_append [simp]: "nlfree (a @ b) \<longleftrightarrow> nlfree a \<and> nlfree b"
  by (auto simp: nlfree_def)

lemma nlfree_Nil [simp]: "nlfree []"
  by (simp add: nlfree_def)

lemma nlfree_colors [simp]:
  "nlfree colorReset" "nlfree colorRed" "nlfree colorGreen" "nlfree colorYellow" "nlfree colorBlue"
  "nlfree colorPurple" "nlfree colorCyan" "nlfree colorGray" "nlfree colorBold"
  "nlfree '' ''" "nlfree ''=''" "nlfree ''.''"
  by (simp_all add: nlfree_def color_defs newline_def)

lemma nlfree_level [simp]: "nlfree (levelColor lvl)" "nlfree (levelString lvl)"
  by (simp_all add: levelColor_def levelString_def) (simp_all add: nlfree_def newline_def)

lemma visible_not_newline: "visible c \<Longrightarrow> c \<noteq> newline"
  by (auto simp: visible_def bslash_facts)

lemma nlfree_Quote: "nlfree (Quote E s)"
  using visible_Quote [of E s] visible_not_newline
  by (auto simp: nlfree_def list_all_iff)

lemma nlfree_unquoted: "\<not> needsQuoting s \<Longrightarrow> nlfree s"
  by (auto simp: needsQuoting_iff nlfree_def)

lemma nlfree_formatValue:
  "lineSafeV E v \<Longrightarrow> Value_Kind v \<noteq> KindGroup \<Longrightarrow> nlfree (formatValue E v)"
  by (cases v) (simp_all add: formatValue_def nlfree_Quote nlfree_unquoted)

lemma nlfree_Cons: "nlfree (c # s) \<longleftrightarrow> c \<noteq> newline \<and> nlfree s"
  by (auto simp: nlfree_def)

lemma nlfree_buildKey: "list_all nlfree gs \<Longrightarrow> nlfree key \<Longrightarrow> nlfree (buildKey gs key)"
  unfolding buildKey_def
  by (induction gs arbitrary: key) (simp_all add: nlfree_Cons newline_def)

lemma lineSafe_key: "lineSafe E a \<Longrightarrow> nlfree (Key a)"
  by (cases a) simp

lemma lineSafe_value: "lineSafe E a \<Longrightarrow> lineSafeV E (Value a)"
  by (cases a) simp

lemma lineSafe_group:
  "lineSafe E a \<Longrightarrow> Value_Kind (Value a) = KindGroup \<Longrightarrow> c \<in> set (Group (Value a)) \<Longrightarrow> lineSafe E c"
  by (cases a; cases "Value a") (auto simp: list_all_iff)

lemma appendAttr_Suc:
  "appendAttr (Suc n) E ho buf a gs =
     (if isEmptyAttr a \<or> (ReplaceAttr ho \<noteq> None \<and> isEmptyAttr (applyReplaceAttr ho gs a)) then Some buf
      else if Value_Kind (Value (applyReplaceAttr ho gs a)) = KindGroup then
        (if length (Group (Value (applyReplaceAttr ho gs a))) = 0 then Some buf
         else appendGroupAttrs (appendAttr n E ho) buf (Group (Value (applyReplaceAttr ho gs a))) 0
                (gs @ [Key (applyReplaceAttr ho gs a)]))
      else Some (buf @ colorPurple @ buildKey gs (Key (applyReplaceAttr ho gs a)) @ colorReset @ ''=''
                 @ formatValue E (Value (applyReplaceAttr ho gs a))))"
  by (cases "ReplaceAttr ho") (simp_all add: Let_def applyReplaceAttr_def)

text \<open>The loops only ever append to the buffer they are given.\<close>

lemma appendGroupAttrs_nlfree:
  "appendGroupAttrs f buf gas i gs = Some out \<Longrightarrow> nlfree buf \<Longrightarrow>
   (\<forall>a \<in> set gas. \<forall>b b'. f b a gs = Some b' \<longrightarrow> nlfree b \<longrightarrow> nlfree b') \<Longrightarrow> nlfree out"
proof (induction gas arbitrary: buf i)
  case Nil
  then show ?case by simp
next
  case (Cons ga gas)
  let ?b1 = "if i > 0 \<or> length buf > 0 then buf @ '' '' else buf"
  obtain b2 where b2: "f ?b1 ga gs = Some b2" and rest: "appendGroupAttrs f b2 gas (i + 1) gs = Some out"
    using Cons.prems(1) by (auto simp: Let_def split: option.splits)
  have b1: "nlfree ?b1" using Cons.prems(2) by simp
  have nb2: "nlfree b2" using Cons.prems(3) b2 b1 by (meson list.set_intros(1))
  have "\<forall>a \<in> set gas. \<forall>b b'. f b a gs = Some b' \<longrightarrow> nlfree b \<longrightarrow> nlfree b'"
    using Cons.prems(3) by simp
  then show ?case using Cons.IH [OF rest nb2] by blast
qed

lemma appendAttr_nlfree:
  "appendAttr n E ho buf a gs = Some out \<Longrightarrow> hook_lineSafe E ho \<Longrightarrow> lineSafe E a \<Longrightarrow>
   list_all nlfree gs \<Longrightarrow> nlfree buf \<Longrightarrow> nlfree out"
proof (induction n arbitrary: a buf gs out)
  case 0
  then show ?case by simp
next
  case (Suc n)
  define a' where "a' = applyReplaceAttr ho gs a"
  note eq = Suc.prems(1) [unfolded appendAttr_Suc, folded a'_def]
  have safe: "lineSafe E a'"
    using Suc.prems(2,3) by (auto simp: a'_def applyReplaceAttr_def hook_lineSafe_def split: option.splits)
  note key = lineSafe_key [OF safe]
  show ?case
  proof (cases "isEmptyAttr a \<or> (ReplaceAttr ho \<noteq> None \<and> isEmptyAttr a')")
    case True
    then have "out = buf" using eq by (auto split: if_splits)
    then show ?thesis using Suc.prems(5) by simp
  next
    case False
    show ?thesis
    proof (cases "Value_Kind (Value a') = KindGroup")
      case grp: True
      show ?thesis
      proof (cases "length (Group (Value a')) = 0")
        case True
        then have "out = buf" using eq False grp by (auto split: if_splits)
        then show ?thesis using Suc.prems(5) by simp
      next
        case ne: False
        have run: "appendGroupAttrs (appendAttr n E ho) buf (Group (Value a')) 0 (gs @ [Key a']) = Some out"
          using eq False grp ne by (auto split: if_splits)
        have gs': "list_all nlfree (gs @ [Key a'])" using Suc.prems(4) key by simp
        show ?thesis
        proof (rule appendGroupAttrs_nlfree [OF run Suc.prems(5)], intro ballI allI impI)
          fix c b b'
          assume "c \<in> set (Group (Value a'))" "appendAttr n E ho b c (gs @ [Key a']) = Some b'" "nlfree b"
          then show "nlfree b'"
            using Suc.IH [of b c "gs @ [Key a']" b'] Suc.prems(2) lineSafe_group [OF safe grp] gs'
            by blast
        qed
      qed
    next
      case leaf: False
      have "out = buf @ colorPurple @ buildKey gs (Key a') @ colorReset @ ''='' @ formatValue E (Value a')"
        using eq False leaf by (auto split: if_splits)
      then show ?thesis
        using Suc.prems(4,5) key nlfree_buildKey nlfree_formatValue [OF lineSafe_value [OF safe] leaf]
        by (simp add: nlfree_Cons newline_def)
    qed
  qed
qed

lemma handleAttrs_nlfree:
  "handleAttrs f buf as gs = Some out \<Longrightarrow> nlfree buf \<Longrightarrow>
   (\<forall>a \<in> set as. \<forall>b b'. f b a gs = Some b' \<longrightarrow> nlfree b \<longrightarrow> nlfree b') \<Longrightarrow> nlfree out"
proof (induction as arbitrary: buf)
  case Nil
  then show ?case by simp
next
  case (Cons a as)
  obtain b2 where b2: "f (buf @ '' '') a gs = Some b2" and rest: "handleAttrs f b2 as gs = Some out"
    using Cons.prems(1) by (auto split: option.splits)
  have b1: "nlfree (buf @ '' '')" using Cons.prems(2) by simp
  have nb2: "nlfree b2" using Cons.prems(3) b2 b1 by (meson list.set_intros(1))
  have "\<forall>a \<in> set as. \<forall>b b'. f b a gs = Some b' \<longrightarrow> nlfree b \<longrightarrow> nlfree b'"
    using Cons.prems(3) by simp
  then show ?case using Cons.IH [OF rest nb2] by blast
qed

text \<open>The loops keep what the buffer held.\<close>

lemma appendGroupAttrs_prefix:
  "appendGroupAttrs f buf gas i gs = Some out \<Longrightarrow>
   (\<forall>a \<in> set gas. \<forall>b b'. f b a gs = Some b' \<longrightarrow> (\<exists>x. b' = b @ x)) \<Longrightarrow> \<exists>x. out = buf @ x"
proof (induction gas arbitrary: buf i)
  case Nil
  then show ?case by simp
next
  case (Cons ga gas)
  let ?b1 = "if i > 0 \<or> length buf > 0 then buf @ '' '' else buf"
  obtain b2 where b2: "f ?b1 ga gs = Some b2" and rest: "appendGroupAttrs f b2 gas (i + 1) gs = Some out"
    using Cons.prems(1) by (auto simp: Let_def split: option.splits)
  obtain x where x: "b2 = ?b1 @ x" using Cons.prems(2) b2 by (meson list.set_intros(1))
  have "\<forall>a \<in> set gas. \<forall>b b'. f b a gs = Some b' \<longrightarrow> (\<exists>x. b' = b @ x)"
    using Cons.prems(2) by simp
  then obtain y where y: "out = b2 @ y" using Cons.IH [OF rest] by blast
  show ?case unfolding y x by (cases "i > 0 \<or> length buf > 0") auto
qed

lemma appendAttr_prefix:
  "appendAttr n E ho buf a gs = Some out \<Longrightarrow> \<exists>x. out = buf @ x"
proof (induction n arbitrary: a buf gs out)
  case 0
  then show ?case by simp
next
  case (Suc n)
  define a' where "a' = applyReplaceAttr ho gs a"
  note eq = Suc.prems(1) [unfolded appendAttr_Suc, folded a'_def]
  show ?case
  proof (cases "isEmptyAttr a \<or> (ReplaceAttr ho \<noteq> None \<and> isEmptyAttr a')")
    case True
    then have "out = buf" using eq by (auto split: if_splits)
    then show ?thesis by simp
  next
    case False
    show ?thesis
    proof (cases "Value_Kind (Value a') = KindGroup")
      case grp: True
      show ?thesis
      proof (cases "length (Group (Value a')) = 0")
        case True
        then have "out = buf" using eq False grp by (auto split: if_splits)
        then show ?thesis by simp
      next
        case ne: False
        have run: "appendGroupAttrs (appendAttr n E ho) buf (Group (Value a')) 0 (gs @ [Key a']) = Some out"
          using eq False grp ne by (auto split: if_splits)
        show ?thesis
          by (rule appendGroupAttrs_prefix [OF run]) (use Suc.IH in blast)
      qed
    next
      case leaf: False
      have "out = buf @ colorPurple @ buildKey gs (Key a') @ colorReset @ ''='' @ formatValue E (Value a')"
        using eq False leaf by (auto split: if_splits)
      then show ?thesis by blast
    qed
  qed
qed

lemma handleAttrs_prefix:
  "handleAttrs (appendAttr n E ho) buf as gs = Some out \<Longrightarrow> \<exists>x. out = buf @ x"
proof (induction as arbitrary: buf)
  case Nil
  then show ?case by simp
next
  case (Cons a as)
  obtain b2 where b2: "appendAttr n E ho (buf @ '' '') a gs = Some b2"
    and rest: "handleAttrs (appendAttr n E ho) b2 as gs = Some out"
    using Cons.prems(1) by (auto split: option.splits)
  obtain x where "b2 = (buf @ '' '') @ x" using appendAttr_prefix [OF b2] by auto
  moreover obtain y where "out = b2 @ y" using Cons.IH [OF rest] by auto
  ultimately show ?case by simp
qed

lemma handleHead_msg:
  "handleHead E h (handedRecord E ctx l lvl msg args)
     = timestampPart E h (handedRecord E ctx l lvl msg args)
       @ levelColor lvl @ levelString lvl @ colorReset @ '' ''
       @ sourcePart E h (handedRecord E ctx l lvl msg args)
       @ colorBold @ msg @ colorReset @ preformatPart h"
  by (simp add: handleHead_def levelPart_def messagePart_def handedRecord_fields)

lemma Handle_clean:
  assumes run: "handleAttrs (appendAttr n E (opts h)) (handleHead E h r) (rattrs r) (groups h) = Some body"
    and hook: "hook_lineSafe E (opts h)"
    and head: "nlfree (handleHead E h r)"
    and gs: "list_all nlfree (groups h)"
    and as: "list_all (lineSafe E) (rattrs r)"
  shows "nlfree body"
proof (rule handleAttrs_nlfree [OF run head], intro ballI allI impI)
  fix a b b'
  assume "a \<in> set (rattrs r)" "appendAttr n E (opts h) b a (groups h) = Some b'" "nlfree b"
  then show "nlfree b'"
    using appendAttr_nlfree [of n E "opts h" b a "groups h" b'] hook gs as
    by (auto simp: list_all_iff)
qed

text \<open>
  Claim C2, as stated, fails for a message that contains a newline: the call is enabled
  and makes one write, but the bytes written hold two newline bytes, that is two lines.
\<close>

theorem newline_in_message_counterexample:
  "Info 1 plainEnv plainLogger (\<lambda>k. None) [CHR ''a'', newline, CHR ''b''] [] []
     = Some [(1, colorGray @ ''12:00'' @ colorReset @ '' '' @ colorGreen @ ''INF'' @ colorReset @ '' ''
                 @ colorCyan @ ''main.go:25'' @ colorReset @ '' ''
                 @ colorBold @ [CHR ''a'', newline, CHR ''b''] @ colorReset @ [newline])] \<and>
   Enabled (handler plainLogger) LevelInfo \<and>
   length (filter (\<lambda>c. c = newline)
            (colorGray @ ''12:00'' @ colorReset @ '' '' @ colorGreen @ ''INF'' @ colorReset @ '' ''
                 @ colorCyan @ ''main.go:25'' @ colorReset @ '' ''
                 @ colorBold @ [CHR ''a'', newline, CHR ''b''] @ colorReset @ [newline])) = 2"
  by code_simp

text \<open>
  Claim C2, amended. For a logger whose replacement hook does not deepen the attributes
  it is given, and a recursion bound above the nesting depth of the attributes of the
  call: the call is handled exactly when its level is at least the configured minimum,
  which is info when none is configured. Below the minimum it returns without any write.
  At or above it the call makes exactly one write, to the logger's sink; the bytes
  written are the timestamp, the level badge, the call-site field, the message as it is
  between the bold and reset codes, the pre-rendered text and the text of the attributes,
  followed by one newline byte. That write is a single line ending in exactly one newline
  byte whenever no newline byte is in the message, the timestamp text, the call-site
  text, the pre-rendered text, the group names, the attribute keys and the library's
  rendering of the values that are neither strings nor groups, and the hook keeps
  attributes that way; string values never bring one in.
\<close>

theorem logging_call_gate_and_line:
  assumes "hook_bounded (opts (handler l))"
    and "maxDepth (contextAttrs ctx (keys l) [] @ args) < n"
  shows
    "(lvl < (case Leveler (opts (handler l)) of None \<Rightarrow> LevelInfo | Some m \<Rightarrow> m) \<longrightarrow>
        logWithCaller n E ctx l lvl msg args tr = Some tr) \<and>
     (lvl \<ge> (case Leveler (opts (handler l)) of None \<Rightarrow> LevelInfo | Some m \<Rightarrow> m) \<longrightarrow>
        (\<exists>attrsText.
           handleAttrs (appendAttr n E (opts (handler l)))
               (handleHead E (handler l) (handedRecord E ctx l lvl msg args))
               (rattrs (handedRecord E ctx l lvl msg args)) (groups (handler l))
             = Some (handleHead E (handler l) (handedRecord E ctx l lvl msg args) @ attrsText) \<and>
           logWithCaller n E ctx l lvl msg args tr
             = Some (tr @ [(output_ref (handler l),
                            timestampPart E (handler l) (handedRecord E ctx l lvl msg args)
                            @ levelColor lvl @ levelString lvl @ colorReset @ '' ''
                            @ sourcePart E (handler l) (handedRecord E ctx l lvl msg args)
                            @ colorBold @ msg @ colorReset @ preformatPart (handler l)
                            @ attrsText @ [newline])]) \<and>
           (hook_lineSafe E (opts (handler l)) \<and> nlfree msg \<and>
            nlfree (timestampPart E (handler l) (handedRecord E ctx l lvl msg args)) \<and>
            nlfree (sourcePart E (handler l) (handedRecord E ctx l lvl msg args)) \<and>
            nlfree (preformat (handler l)) \<and> list_all nlfree (groups (handler l)) \<and>
            list_all (lineSafe E) (contextAttrs ctx (keys l) [] @ args)
            \<longrightarrow> nlfree (timestampPart E (handler l) (handedRecord E ctx l lvl msg args)
                        @ levelColor lvl @ levelString lvl @ colorReset @ '' ''
                        @ sourcePart E (handler l) (handedRecord E ctx l lvl msg args)
                        @ colorBold @ msg @ colorReset @ preformatPart (handler l)
                        @ attrsText))))"
proof (intro conjI impI)
  assume "lvl < (case Leveler (opts (handler l)) of None \<Rightarrow> LevelInfo | Some m \<Rightarrow> m)"
  then have "\<not> Enabled (handler l) lvl" by (simp add: Enabled_def Let_def)
  then show "logWithCaller n E ctx l lvl msg args tr = Some tr"
    by (simp add: logWithCaller_Handle)
next
  let ?h = "handler l" and ?r = "handedRecord E ctx l lvl msg args"
  assume "lvl \<ge> (case Leveler (opts (handler l)) of None \<Rightarrow> LevelInfo | Some m \<Rightarrow> m)"
  then have en: "Enabled ?h lvl" by (simp add: Enabled_def Let_def)
  obtain body where run: "handleAttrs (appendAttr n E (opts ?h)) (handleHead E ?h ?r) (rattrs ?r) (groups ?h)
        = Some body"
    and hd: "Handle n E ?h ?r tr
         = Some (tr @ [(output_ref ?h, body @ [newline])], Write E (output_ref ?h) tr (body @ [newline]))"
    using Handle_line [OF assms(1) handedRecord_fuel [OF assms(2), of E lvl msg], of E tr] by blast
  obtain x where x: "body = handleHead E ?h ?r @ x" using handleAttrs_prefix [OF run] by blast
  have log: "logWithCaller n E ctx l lvl msg args tr = Some (tr @ [(output_ref ?h, body @ [newline])])"
    using en hd by (simp add: logWithCaller_Handle)
  have clean: "nlfree body"
    if c: "hook_lineSafe E (opts ?h) \<and> nlfree msg \<and> nlfree (timestampPart E ?h ?r) \<and>
           nlfree (sourcePart E ?h ?r) \<and> nlfree (preformat ?h) \<and> list_all nlfree (groups ?h) \<and>
           list_all (lineSafe E) (contextAttrs ctx (keys l) [] @ args)"
  proof (rule Handle_clean [OF run])
    show "hook_lineSafe E (opts ?h)" "list_all nlfree (groups ?h)" using c by simp_all
    show "nlfree (handleHead E ?h ?r)"
      using c by (simp add: handleHead_msg preformatPart_def nlfree_Cons newline_def)
    show "list_all (lineSafe E) (rattrs ?r)"
      using c handedRecord_fields(5) [of E ctx l lvl msg args] by (auto simp: list_all_iff)
  qed
  show "\<exists>attrsText.
           handleAttrs (appendAttr n E (opts (handler l)))
               (handleHead E (handler l) (handedRecord E ctx l lvl msg args))
               (rattrs (handedRecord E ctx l lvl msg args)) (groups (handler l))
             = Some (handleHead E (handler l) (handedRecord E ctx l lvl msg args) @ attrsText) \<and>
           logWithCaller n E ctx l lvl msg args tr
             = Some (tr @ [(output_ref (handler l),
                            timestampPart E (handler l) (handedRecord E ctx l lvl msg args)
                            @ levelColor lvl @ levelString lvl @ colorReset @ '' ''
                            @ sourcePart E (handler l) (handedRecord E ctx l lvl msg args)
                            @ colorBold @ msg @ colorReset @ preformatPart (handler l)
                            @ attrsText @ [newline])]) \<and>
           (hook_lineSafe E (opts (handler l)) \<and> nlfree msg \<and>
            nlfree (timestampPart E (handler l) (handedRecord E ctx l lvl msg args)) \<and>
            nlfree (sourcePart E (handler l) (handedRecord E ctx l lvl msg args)) \<and>
            nlfree (preformat (handler l)) \<and> list_all nlfree (groups (handler l)) \<and>
            list_all (lineSafe E) (contextAttrs ctx (keys l) [] @ args)
            \<longrightarrow> nlfree (timestampPart E (handler l) (handedRecord E ctx l lvl msg args)
                        @ levelColor lvl @ levelString lvl @ colorReset @ '' ''
                        @ sourcePart E (handler l) (handedRecord E ctx l lvl msg args)
                        @ colorBold @ msg @ colorReset @ preformatPart (handler l)
                        @ attrsText))"
  proof (intro exI [of _ x] conjI impI)
    show "handleAttrs (appendAttr n E (opts ?h)) (handleHead E ?h ?r) (rattrs ?r) (groups ?h)
            = Some (handleHead E ?h ?r @ x)"
      using run x by simp
    show "logWithCaller n E ctx l lvl msg args tr
             = Some (tr @ [(output_ref ?h,
                            timestampPart E ?h ?r @ levelColor lvl @ levelString lvl @ colorReset @ '' ''
                            @ sourcePart E ?h ?r @ colorBold @ msg @ colorReset @ preformatPart ?h
                            @ x @ [newline])])"
      using log x handleHead_msg [of E ?h ctx l lvl msg args] by simp
    assume "hook_lineSafe E (opts ?h) \<and> nlfree msg \<and> nlfree (timestampPart E ?h ?r) \<and>
           nlfree (sourcePart E ?h ?r) \<and> nlfree (preformat ?h) \<and> list_all nlfree (groups ?h) \<and>
           list_all (lineSafe E) (contextAttrs ctx (keys l) [] @ args)"
    then have "nlfree body" by (rule clean)
    then show "nlfree (timestampPart E ?h ?r @ levelColor lvl @ levelString lvl @ colorReset @ '' ''
                        @ sourcePart E ?h ?r @ colorBold @ msg @ colorReset @ preformatPart ?h @ x)"
      using x handleHead_msg [of E ?h ctx l lvl msg args] by simp
  qed
qed

theorem logging_call_gate_and_line_witness:
  "logWithCaller 1 plainEnv (\<lambda>k. None) plainLogger LevelDebug ''m'' [Attr ''k'' (StringValue ''a b'')] []
     = Some [] \<and>
   (\<exists>attrsText.
      logWithCaller 1 plainEnv (\<lambda>k. None) plainLogger LevelInfo ''m'' [Attr ''k'' (StringValue ''a b'')] []
        = Some [(1, colorGray @ ''12:00'' @ colorReset @ '' '' @ colorGreen @ ''INF'' @ colorReset @ '' ''
                    @ colorCyan @ ''main.go:25'' @ colorReset @ '' '' @ colorBold @ ''m'' @ colorReset
                    @ attrsText @ [newline])] \<and>
      nlfree (colorGray @ ''12:00'' @ colorReset @ '' '' @ colorGreen @ ''INF'' @ colorReset @ '' ''
              @ colorCyan @ ''main.go:25'' @ colorReset @ '' '' @ colorBold @ ''m'' @ colorReset
              @ attrsText))"
proof -
  let ?args = "[Attr ''k'' (StringValue ''a b'')]"
  let ?ctx = "\<lambda>k. None :: Value option"
  let ?h = "handler plainLogger"
  have h: "?h = plainHandler" by (simp add: plainLogger_def NewContextHandler_def)
  have o: "opts plainHandler = plainOpts" "output_ref plainHandler = 1" "preformat plainHandler = []"
    "groups plainHandler = []"
    by (simp_all add: plainHandler_def NewColorHandler_def)
  have hb: "hook_bounded (opts ?h)"
    unfolding h o by (simp add: hook_bounded_def plainOpts_def)
  have fuel: "maxDepth (contextAttrs ?ctx (keys plainLogger) [] @ ?args) < 1"
    by code_simp
  have lv: "(case Leveler (opts ?h) of None \<Rightarrow> LevelInfo | Some m \<Rightarrow> m) = LevelInfo"
    unfolding h o by (simp add: plainOpts_def)
  have ts: "timestampPart plainEnv ?h (handedRecord plainEnv ?ctx plainLogger lvl ''m'' ?args)
              = colorGray @ ''12:00'' @ colorReset @ '' ''" for lvl
    unfolding h by (simp add: timestampPart_def handedRecord_fields o plainOpts_def plainEnv_def IsZero_def)
  have fs: "formatSource plainEnv 1 = ''main.go:25''"
    by code_simp
  have sp: "sourcePart plainEnv ?h (handedRecord plainEnv ?ctx plainLogger lvl ''m'' ?args)
              = colorCyan @ ''main.go:25'' @ colorReset @ '' ''" for lvl
  proof -
    have "PC (handedRecord plainEnv ?ctx plainLogger lvl ''m'' ?args) = 1"
      by (simp add: handedRecord_fields plainEnv_def)
    then show ?thesis unfolding h by (simp add: sourcePart_def o plainOpts_def fs)
  qed
  have pp: "preformatPart ?h = []" unfolding h by (simp add: preformatPart_def o)
  have clean: "hook_lineSafe plainEnv (opts ?h) \<and> nlfree ''m'' \<and>
      nlfree (timestampPart plainEnv ?h (handedRecord plainEnv ?ctx plainLogger LevelInfo ''m'' ?args)) \<and>
      nlfree (sourcePart plainEnv ?h (handedRecord plainEnv ?ctx plainLogger LevelInfo ''m'' ?args)) \<and>
      nlfree (preformat ?h) \<and> list_all nlfree (groups ?h) \<and>
      list_all (lineSafe plainEnv) (contextAttrs ?ctx (keys plainLogger) [] @ ?args)"
    unfolding ts sp unfolding h o
    by (simp add: hook_lineSafe_def plainOpts_def plainLogger_def NewContextHandler_def
        nlfree_Cons newline_def)
  have badge: "levelColor LevelInfo = colorGreen" "levelString LevelInfo = ''INF''"
    by (simp_all add: levelColor_def levelString_def level_defs)
  note t = logging_call_gate_and_line [OF hb fuel, of _ plainEnv "''m''" "[]", unfolded lv ts sp pp]
  have low: "logWithCaller 1 plainEnv ?ctx plainLogger LevelDebug ''m'' ?args [] = Some []"
    using t [of LevelDebug] by (simp add: level_defs)
  have high: "\<exists>attrsText.
      logWithCaller 1 plainEnv ?ctx plainLogger LevelInfo ''m'' ?args []
        = Some [(1, colorGray @ ''12:00'' @ colorReset @ '' '' @ colorGreen @ ''INF'' @ colorReset @ '' ''
                    @ colorCyan @ ''main.go:25'' @ colorReset @ '' '' @ colorBold @ ''m'' @ colorReset
                    @ attrsText @ [newline])] \<and>
      nlfree (colorGray @ ''12:00'' @ colorReset @ '' '' @ colorGreen @ ''INF'' @ colorReset @ '' ''
              @ colorCyan @ ''main.go:25'' @ colorReset @ '' '' @ colorBold @ ''m'' @ colorReset
              @ attrsText)"
    using t [of LevelInfo] clean [unfolded ts sp] unfolding badge h o by auto
  show ?thesis using low high by blast
qed

end
